theory Spec2Isabelle
  imports Complex_Main
begin

section \<open>The pagination extension of src/index.ts\<close>

text \<open>
  The extension computes, for a ProseMirror document, the positions at which page-break
  widgets are inserted. The development embeds the plugin of \<^verbatim>\<open>src/index.ts\<close>: the
  plugin state (the options and their patching), the \<^verbatim>\<open>decorations\<close> property with the
  callback it hands to \<^verbatim>\<open>doc.descendants\<close>, the widget's \<^verbatim>\<open>toDOM\<close> closure, and the
  second, simpler plugin that follows it in the same file.

  JavaScript numbers are modelled as \<^typ>\<open>real\<close>, document positions as \<^typ>\<open>nat\<close>.
\<close>

subsection \<open>The host's document tree\<close>

text \<open>
  A ProseMirror node is a text node, a leaf node (its type has no content) or a node
  with content. A node type has a name and is block-level or not; text is never
  block-level. These are the projections of the host's \<^verbatim>\<open>Node\<close> the plugin reads.
\<close>

datatype Node =
    Text string
  | Leaf string bool
  | Branch string bool "Node list"

fun typeName :: "Node \<Rightarrow> string" where
  "typeName (Text s) = ''text''"
| "typeName (Leaf t b) = t"
| "typeName (Branch t b cs) = t"

fun isBlock :: "Node \<Rightarrow> bool" where
  "isBlock (Text s) = False"
| "isBlock (Leaf t b) = b"
| "isBlock (Branch t b cs) = b"

fun content :: "Node \<Rightarrow> Node list" where
  "content (Text s) = []"
| "content (Leaf t b) = []"
| "content (Branch t b cs) = cs"

text \<open>\<^verbatim>\<open>nodeSize\<close>: the length of a text node, 1 for a leaf, 2 plus the content's size
  otherwise.\<close>

fun nodeSize :: "Node \<Rightarrow> nat" where
  "nodeSize (Text s) = length s"
| "nodeSize (Leaf t b) = 1"
| "nodeSize (Branch t b cs) = 2 + sum_list (map nodeSize cs)"

definition contentSize :: "Node list \<Rightarrow> nat" where
  "contentSize cs = sum_list (map nodeSize cs)"

text \<open>
  \<^verbatim>\<open>doc.descendants(f)\<close> calls \<open>f\<close> for every descendant in document order, a
  parent before its children, with the position at which the node starts: a first child
  starts one after its parent, a sibling where the node before it ends. It skips a
  node's children only when \<open>f\<close> returns \<^verbatim>\<open>false\<close>, which the plugin's callbacks never
  do. The traversal is the list of the calls it makes.
\<close>

fun visit :: "Node \<Rightarrow> nat \<Rightarrow> (Node \<times> nat) list"
  and visitAll :: "Node list \<Rightarrow> nat \<Rightarrow> (Node \<times> nat) list" where
  "visit (Text s) p = [(Text s, p)]"
| "visit (Leaf t b) p = [(Leaf t b, p)]"
| "visit (Branch t b cs) p = (Branch t b cs, p) # visitAll cs (p + 1)"
| "visitAll [] p = []"
| "visitAll (c # cs) p = visit c p @ visitAll cs (p + nodeSize c)"

definition descendants :: "Node \<Rightarrow> (Node \<times> nat) list" where
  "descendants doc = visitAll (content doc) 0"

text \<open>
  \<^verbatim>\<open>doc.nodeAt(pos)\<close> finds the node directly after a position: it looks the position up
  in the content, returns the child that starts there, descends into the child the
  position lies inside (a text node is returned as it is), answers \<^verbatim>\<open>null\<close> at the end
  of a content, and throws a \<^verbatim>\<open>RangeError\<close> for a position beyond the content.
\<close>

datatype error = RangeError

fun nodeAtContent :: "Node list \<Rightarrow> nat \<Rightarrow> error + Node option" where
  "nodeAtContent [] pos = (if pos = 0 then Inr None else Inl RangeError)"
| "nodeAtContent (c # cs) pos =
     (if pos = 0 then Inr (Some c)
      else if pos < nodeSize c then
        (case c of
           Branch t b ch \<Rightarrow> nodeAtContent ch (pos - 1)
         | _ \<Rightarrow> Inr (Some c))
      else nodeAtContent cs (pos - nodeSize c))"

definition nodeAt :: "Node \<Rightarrow> nat \<Rightarrow> error + Node option" where
  "nodeAt doc pos = nodeAtContent (content doc) pos"

subsection \<open>The rendered elements\<close>

text \<open>
  \<^verbatim>\<open>view.nodeDOM(pos)\<close> is the host's lookup of the element rendered for the node at a
  position; the plugin goes on only when it is an \<^verbatim>\<open>HTMLElement\<close>. Of an element the
  plugin reads \<^verbatim>\<open>offsetHeight\<close> and, for a list item, four lengths of the computed
  style through \<^verbatim>\<open>parseFloat\<close>, whose result \<^verbatim>\<open>NaN\<close> is \<open>None\<close> here.
\<close>

record HTMLElement =
  offsetHeight :: real
  marginTop :: "real option"
  marginBottom :: "real option"
  paddingTop :: "real option"
  paddingBottom :: "real option"

type_synonym EditorView = "nat \<Rightarrow> HTMLElement option"

text \<open>\<^verbatim>\<open>parseFloat(s) || 0\<close>: \<^verbatim>\<open>NaN\<close> and 0 are falsy.\<close>

fun orZero :: "real option \<Rightarrow> real" where
  "orZero None = 0"
| "orZero (Some x) = x"

definition calculateListItemHeight :: "HTMLElement \<Rightarrow> real" where
  "calculateListItemHeight element =
     offsetHeight element + orZero (marginTop element) + orZero (marginBottom element)
       + orZero (paddingTop element) + orZero (paddingBottom element)"

subsection \<open>Options and the plugin state\<close>

record PaginationOptions =
  pageHeight :: real
  pageWidth :: real
  pageMargin :: real
  label :: "string option"
  showPageNumber :: "bool option"

text \<open>\<^verbatim>\<open>Partial<PaginationOptions>\<close>: each key is present with a value or absent.\<close>

record PartialPaginationOptions =
  has_pageHeight :: "real option"
  has_pageWidth :: "real option"
  has_pageMargin :: "real option"
  has_label :: "string option option"
  has_showPageNumber :: "bool option option"

definition addOptions :: PaginationOptions where
  "addOptions = \<lparr> pageHeight = 1056, pageWidth = 816, pageMargin = 96,
                  label = Some ''Page'', showPageNumber = Some True \<rparr>"

text \<open>The spread \<^verbatim>\<open>{ ...value, ...newOptions }\<close>: a key of the patch wins.\<close>

definition spread :: "PaginationOptions \<Rightarrow> PartialPaginationOptions \<Rightarrow> PaginationOptions" where
  "spread v newOptions =
     \<lparr> pageHeight = (case has_pageHeight newOptions of None \<Rightarrow> pageHeight v | Some x \<Rightarrow> x),
       pageWidth = (case has_pageWidth newOptions of None \<Rightarrow> pageWidth v | Some x \<Rightarrow> x),
       pageMargin = (case has_pageMargin newOptions of None \<Rightarrow> pageMargin v | Some x \<Rightarrow> x),
       label = (case has_label newOptions of None \<Rightarrow> label v | Some x \<Rightarrow> x),
       showPageNumber =
         (case has_showPageNumber newOptions of None \<Rightarrow> showPageNumber v | Some x \<Rightarrow> x) \<rparr>"

text \<open>A transaction carries the metadata \<^verbatim>\<open>paginationOptions\<close> or does not.\<close>

record Transaction =
  getMeta_paginationOptions :: "PartialPaginationOptions option"

definition setPaginationOptions ::
  "PartialPaginationOptions \<Rightarrow> Transaction \<Rightarrow> bool \<Rightarrow> Transaction \<times> bool" where
  "setPaginationOptions options tr dispatch =
     (if dispatch then (tr\<lparr>getMeta_paginationOptions := Some options\<rparr>, True) else (tr, True))"

definition state_init :: "PaginationOptions \<Rightarrow> PaginationOptions" where
  "state_init options = options"

definition state_apply :: "Transaction \<Rightarrow> PaginationOptions \<Rightarrow> PaginationOptions" where
  "state_apply tr v =
     (case getMeta_paginationOptions tr of
        None \<Rightarrow> v
      | Some newOptions \<Rightarrow> spread v newOptions)"

record EditorState =
  doc :: Node
  pluginState :: PaginationOptions

subsection \<open>The decorations of the plugin\<close>

text \<open>
  A widget decoration holds its position and a \<^verbatim>\<open>toDOM\<close> function, which the view
  calls when it draws the widget. \<^verbatim>\<open>createPageBreak\<close> gives every widget the same
  closure, so a decoration is its position.
\<close>

datatype Decoration = Widget (widgetPos: nat)

record locals =
  decorations :: "Decoration list"
  currentPageHeight :: real
  pageNumber :: nat
  lastNodeWasList :: bool
  currentListHeight :: real
  listStartPos :: nat

definition createPageBreak :: "nat \<Rightarrow> Decoration" where
  "createPageBreak pos = Widget pos"

text \<open>The callback of \<^verbatim>\<open>doc.descendants\<close>, on the variables it closes over.\<close>

fun callback :: "Node \<Rightarrow> EditorView \<Rightarrow> real \<Rightarrow> Node \<times> nat \<Rightarrow> locals \<Rightarrow> error + locals" where
  "callback d nodeDOM effectivePageHeight (node, pos) st =
     (if \<not> isBlock node then Inr st
      else case nodeDOM pos of
        None \<Rightarrow> Inr st
      | Some el \<Rightarrow>
          let isList = (typeName node = ''bulletList'' \<or> typeName node = ''orderedList'');
              isListItem = (typeName node = ''listItem'');
              nodeHeight = (if isListItem then calculateListItemHeight el else offsetHeight el)
          in if nodeHeight = 0 then Inr st
             else if isList \<or> isListItem then
               (let st1 = (if \<not> lastNodeWasList st
                           then st\<lparr>listStartPos := pos, currentListHeight := 0\<rparr> else st);
                    st2 = st1\<lparr>currentListHeight := currentListHeight st1 + nodeHeight,
                              lastNodeWasList := True\<rparr>
                in case nodeAt d (pos + nodeSize node) of
                     Inl e \<Rightarrow> Inl e
                   | Inr nextNode \<Rightarrow>
                       let isLastListItem =
                             (case nextNode of
                                None \<Rightarrow> True
                              | Some nx \<Rightarrow> typeName nx \<noteq> ''listItem''
                                  \<and> typeName nx \<noteq> ''bulletList''
                                  \<and> typeName nx \<noteq> ''orderedList'')
                       in if isLastListItem then
                            Inr ((if currentPageHeight st2 + currentListHeight st2
                                      > effectivePageHeight
                                  then st2\<lparr>decorations :=
                                             decorations st2 @ [createPageBreak (listStartPos st2)],
                                           currentPageHeight := currentListHeight st2\<rparr>
                                  else st2\<lparr>currentPageHeight :=
                                             currentPageHeight st2 + currentListHeight st2\<rparr>)
                                 \<lparr>lastNodeWasList := False\<rparr>)
                          else Inr st2)
             else
               (let st1 = st\<lparr>lastNodeWasList := False\<rparr>
                in Inr (if currentPageHeight st1 + nodeHeight > effectivePageHeight
                        then st1\<lparr>decorations := decorations st1 @ [createPageBreak pos],
                                 currentPageHeight := nodeHeight\<rparr>
                        else st1\<lparr>currentPageHeight := currentPageHeight st1 + nodeHeight\<rparr>)))"

text \<open>Calling the callback over the traversal; an exception ends it.\<close>

fun forEach :: "('v \<Rightarrow> 's \<Rightarrow> error + 's) \<Rightarrow> 'v list \<Rightarrow> 's \<Rightarrow> error + 's" where
  "forEach f [] s = Inr s"
| "forEach f (v # vs) s = (case f v s of Inl e \<Rightarrow> Inl e | Inr s' \<Rightarrow> forEach f vs s')"

definition initial :: locals where
  "initial = \<lparr> decorations = [], currentPageHeight = 0, pageNumber = 1,
               lastNodeWasList = False, currentListHeight = 0, listStartPos = 0 \<rparr>"

definition effectivePageHeight :: "PaginationOptions \<Rightarrow> real" where
  "effectivePageHeight options = pageHeight options - 2 * pageMargin options"

text \<open>The body of \<^verbatim>\<open>decorations\<close> up to the end of the traversal.\<close>

definition traverse :: "EditorState \<Rightarrow> EditorView \<Rightarrow> error + locals" where
  "traverse state nodeDOM =
     forEach (callback (doc state) nodeDOM (effectivePageHeight (pluginState state)))
       (descendants (doc state)) initial"

text \<open>\<^verbatim>\<open>DecorationSet.create(doc, decorations)\<close>: the set of the widgets pushed, here in
  the order they were pushed.\<close>

definition props_decorations :: "EditorState \<Rightarrow> EditorView \<Rightarrow> error + Decoration list" where
  "props_decorations state nodeDOM =
     (case traverse state nodeDOM of Inl e \<Rightarrow> Inl e | Inr st \<Rightarrow> Inr (decorations st))"

subsection \<open>Drawing a page break\<close>

text \<open>\<^verbatim>\<open>String(n)\<close> for a natural number: its decimal digits.\<close>

definition digit :: "nat \<Rightarrow> char" where
  "digit n = ''0123456789'' ! n"

fun String :: "nat \<Rightarrow> string" where
  "String n = (if n < 10 then [digit n] else String (n div 10) @ [digit (n mod 10)])"

declare String.simps [simp del]

text \<open>
  The element the widget's \<^verbatim>\<open>toDOM\<close> builds: its \<^verbatim>\<open>data-page-number\<close> attribute and,
  when \<^verbatim>\<open>showPageNumber\<close> is truthy, the text of the page indicator. The closure reads
  \<^verbatim>\<open>pageNumber\<close> and increments it afterwards, so it takes the variable and returns it.
\<close>

record PageBreakElement =
  dataPageNumber :: string
  pageIndicator :: "string option"

definition labelOrPage :: "string option \<Rightarrow> string" where
  "labelOrPage l = (case l of None \<Rightarrow> ''Page'' | Some s \<Rightarrow> if s = [] then ''Page'' else s)"

definition toDOM :: "PaginationOptions \<Rightarrow> nat \<Rightarrow> PageBreakElement \<times> nat" where
  "toDOM options pn =
     (\<lparr> dataPageNumber = String pn,
        pageIndicator =
          (if showPageNumber options = Some True
           then Some (labelOrPage (label options) @ '' '' @ String pn) else None) \<rparr>,
      pn + 1)"

text \<open>The view draws the widgets of a decoration set in document order, each once.\<close>

fun drawWidgets ::
  "PaginationOptions \<Rightarrow> Decoration list \<Rightarrow> nat \<Rightarrow> (nat \<times> PageBreakElement) list" where
  "drawWidgets options [] pn = []"
| "drawWidgets options (w # ws) pn =
     (case toDOM options pn of (el, pn') \<Rightarrow> (widgetPos w, el) # drawWidgets options ws pn')"

text \<open>The page breaks a state shows: the positions of its decorations with the
  elements drawn for them, \<^verbatim>\<open>pageNumber\<close> being what the traversal left.\<close>

definition pageBreaks ::
  "EditorState \<Rightarrow> EditorView \<Rightarrow> error + (nat \<times> PageBreakElement) list" where
  "pageBreaks state nodeDOM =
     (case traverse state nodeDOM of
        Inl e \<Rightarrow> Inl e
      | Inr st \<Rightarrow> Inr (drawWidgets (pluginState state) (decorations st) (pageNumber st)))"

subsection \<open>The second plugin of the file\<close>

text \<open>
  The file holds a second, shorter plugin. Its options have no label and no page-number
  switch; its callback takes the height of every visited node, 0 when the node is not
  block-level or has no \<^verbatim>\<open>HTMLElement\<close>, pushes a widget on overflow, resets
  \<^verbatim>\<open>currentPageHeight\<close> to 0 and then adds the height. It calls nothing that throws.
\<close>

record PaginationOptions2 =
  pageHeight2 :: real
  pageWidth2 :: real
  pageMargin2 :: real

record locals2 =
  decorations2 :: "Decoration list"
  currentPageHeight2 :: real

fun callback2 :: "EditorView \<Rightarrow> PaginationOptions2 \<Rightarrow> Node \<times> nat \<Rightarrow> locals2 \<Rightarrow> locals2" where
  "callback2 nodeDOM options (node, pos) st =
     (let nodeHeight =
            (if isBlock node
             then (case nodeDOM pos of None \<Rightarrow> 0 | Some el \<Rightarrow> offsetHeight el)
             else 0);
          st1 = (if currentPageHeight2 st + nodeHeight
                      > pageHeight2 options - 2 * pageMargin2 options
                 then st\<lparr>decorations2 := decorations2 st @ [Widget pos],
                         currentPageHeight2 := 0\<rparr>
                 else st)
      in st1\<lparr>currentPageHeight2 := currentPageHeight2 st1 + nodeHeight\<rparr>)"

definition props_decorations2 ::
  "Node \<Rightarrow> PaginationOptions2 \<Rightarrow> EditorView \<Rightarrow> Decoration list" where
  "props_decorations2 d options nodeDOM =
     decorations2
       (fold (callback2 nodeDOM options) (descendants d)
          \<lparr> decorations2 = [], currentPageHeight2 = 0 \<rparr>)"

subsection \<open>Notions used to state the properties\<close>

text \<open>
  The height the callback obtains for a visited node, \<open>None\<close> when it returns before
  measuring (the node is not block-level, or has no \<^verbatim>\<open>HTMLElement\<close>).
\<close>

definition measured :: "EditorView \<Rightarrow> Node \<times> nat \<Rightarrow> real option" where
  "measured nodeDOM v =
     (case v of (node, pos) \<Rightarrow>
        if \<not> isBlock node then None
        else (case nodeDOM pos of
                None \<Rightarrow> None
              | Some el \<Rightarrow> Some (if typeName node = ''listItem''
                                  then calculateListItemHeight el else offsetHeight el)))"

definition isListNode :: "Node \<Rightarrow> bool" where
  "isListNode node =
     (typeName node = ''bulletList'' \<or> typeName node = ''orderedList''
        \<or> typeName node = ''listItem'')"

definition isLastListItem :: "Node option \<Rightarrow> bool" where
  "isLastListItem nextNode = (case nextNode of None \<Rightarrow> True | Some nx \<Rightarrow> \<not> isListNode nx)"

text \<open>The three updates the callback makes: the overflow check for a block of height
  \<open>h\<close> starting at \<open>p\<close>, the accumulation of a list node, and the closing of a list.\<close>

definition placeBlock :: "real \<Rightarrow> nat \<Rightarrow> real \<Rightarrow> locals \<Rightarrow> locals" where
  "placeBlock eff p h st =
     (if currentPageHeight st + h > eff
      then st\<lparr>decorations := decorations st @ [Widget p], currentPageHeight := h\<rparr>
      else st\<lparr>currentPageHeight := currentPageHeight st + h\<rparr>)"

definition accumulate :: "nat \<Rightarrow> real \<Rightarrow> locals \<Rightarrow> locals" where
  "accumulate p h st =
     (if lastNodeWasList st then st\<lparr>currentListHeight := currentListHeight st + h\<rparr>
      else st\<lparr>listStartPos := p, currentListHeight := h, lastNodeWasList := True\<rparr>)"

definition closeList :: "real \<Rightarrow> locals \<Rightarrow> locals" where
  "closeList eff st =
     (placeBlock eff (listStartPos st) (currentListHeight st) st)\<lparr>lastNodeWasList := False\<rparr>"

definition blockVisits :: "(Node \<times> nat) list \<Rightarrow> (Node \<times> nat) list" where
  "blockVisits vs = filter (\<lambda>v. isBlock (fst v)) vs"

text \<open>The invariant of the traversal below a position \<open>b\<close> not yet reached: the widgets
  pushed lie before \<open>b\<close> in increasing order, and an open list started after them.\<close>

definition ordered :: "nat \<Rightarrow> locals \<Rightarrow> bool" where
  "ordered b st =
     ((\<forall>w \<in> set (decorations st). widgetPos w < b)
      \<and> sorted_wrt (<) (map widgetPos (decorations st))
      \<and> (lastNodeWasList st \<longrightarrow>
            listStartPos st < b \<and> (\<forall>w \<in> set (decorations st). widgetPos w < listStartPos st)))"

definition lower :: "nat \<Rightarrow> locals \<Rightarrow> nat" where
  "lower b st = (if lastNodeWasList st then listStartPos st else b)"


text \<open>An ordinary block: block-level, not a list node, its content inline leaves
  (text and the like).\<close>

definition ordinaryBlock :: "Node \<Rightarrow> bool" where
  "ordinaryBlock n =
     (isBlock n \<and> \<not> isListNode n \<and> (\<forall>c \<in> set (content n). \<not> isBlock c \<and> content c = []))"

text \<open>The height a visit adds to an open list, and the visits that leave a list open:
  those the callback skips, and list nodes followed by a list node.\<close>

definition heightOf :: "EditorView \<Rightarrow> Node \<times> nat \<Rightarrow> real" where
  "heightOf view v = (case measured view v of None \<Rightarrow> 0 | Some h \<Rightarrow> h)"

definition continues :: "Node \<Rightarrow> EditorView \<Rightarrow> Node \<times> nat \<Rightarrow> bool" where
  "continues d view v =
     (case measured view v of
        None \<Rightarrow> True
      | Some h \<Rightarrow> h = 0 \<or> (isListNode (fst v)
          \<and> (case nodeAt d (snd v + nodeSize (fst v)) of
                 Inl e \<Rightarrow> False
               | Inr nx \<Rightarrow> \<not> isLastListItem nx)))"

text \<open>
  Why a page break lies at a position \<open>x\<close> of the traversal \<open>D\<close>. Either a non-list
  block starts at \<open>x\<close> and overflowed the page when it was checked. Or a list node
  starts at \<open>x\<close> that was visited while no list was open, the visits from it up to a
  later list node (or none, when it is that node itself) left the list open, and that
  node closed the list with the accumulated height overflowing the page. The third
  notion is the invariant behind the second: while a list is open, \<^verbatim>\<open>listStartPos\<close> is
  the position of the list node that opened it.
\<close>

definition checkedAt ::
  "Node \<Rightarrow> EditorView \<Rightarrow> real \<Rightarrow> (Node \<times> nat) list \<Rightarrow> nat \<Rightarrow> bool" where
  "checkedAt d view eff D x =
     (\<exists>pre n post st h. D = pre @ (n, x) # post
        \<and> forEach (callback d view eff) pre initial = Inr st
        \<and> measured view (n, x) = Some h \<and> h \<noteq> 0 \<and> \<not> isListNode n
        \<and> eff < currentPageHeight st + h)"

definition listClosedAt ::
  "Node \<Rightarrow> EditorView \<Rightarrow> real \<Rightarrow> (Node \<times> nat) list \<Rightarrow> nat \<Rightarrow> bool" where
  "listClosedAt d view eff D x =
     (\<exists>pre n post st h run m q rest st' k nx. D = pre @ (n, x) # post
        \<and> forEach (callback d view eff) pre initial = Inr st
        \<and> measured view (n, x) = Some h \<and> h \<noteq> 0 \<and> isListNode n \<and> \<not> lastNodeWasList st
        \<and> (n, x) # post = run @ (m, q) # rest \<and> (\<forall>v \<in> set run. continues d view v)
        \<and> forEach (callback d view eff) (pre @ run) initial = Inr st'
        \<and> measured view (m, q) = Some k \<and> k \<noteq> 0 \<and> isListNode m
        \<and> nodeAt d (q + nodeSize m) = Inr nx \<and> isLastListItem nx
        \<and> listStartPos (accumulate q k st') = x
        \<and> eff < currentPageHeight st' + currentListHeight (accumulate q k st'))"

definition openFrom ::
  "Node \<Rightarrow> EditorView \<Rightarrow> real \<Rightarrow> (Node \<times> nat) list \<Rightarrow> locals \<Rightarrow> bool" where
  "openFrom d view eff vs st =
     (\<exists>pre n mid st0 h. vs = pre @ (n, listStartPos st) # mid
        \<and> forEach (callback d view eff) pre initial = Inr st0 \<and> \<not> lastNodeWasList st0
        \<and> isListNode n \<and> measured view (n, listStartPos st) = Some h \<and> h \<noteq> 0
        \<and> (\<forall>v \<in> set ((n, listStartPos st) # mid). continues d view v))"

subsection \<open>Example documents\<close>

definition element :: "real \<Rightarrow> HTMLElement" where
  "element h = \<lparr> offsetHeight = h, marginTop = Some 0, marginBottom = Some 0,
                 paddingTop = Some 0, paddingBottom = Some 0 \<rparr>"

definition paragraphOf :: "string \<Rightarrow> Node" where
  "paragraphOf s = Branch ''paragraph'' True [Text s]"

definition listItemOf :: "string \<Rightarrow> Node" where
  "listItemOf s = Branch ''listItem'' True [paragraphOf s]"

text \<open>A paragraph followed by a bullet list of two items, each item a paragraph; the
  nodes start at 0, 3 (the list), 4 and 9 (the items), 5 and 10 (their paragraphs).\<close>

definition listDoc :: Node where
  "listDoc = Branch ''doc'' True
     [paragraphOf ''x'', Branch ''bulletList'' True [listItemOf ''a'', listItemOf ''b'']]"

definition listView :: EditorView where
  "listView = [0 \<mapsto> element 100, 3 \<mapsto> element 900, 4 \<mapsto> element 450,
               5 \<mapsto> element 450, 9 \<mapsto> element 450, 10 \<mapsto> element 450]"

definition someLocals :: locals where
  "someLocals = \<lparr> decorations = [Widget 3], currentPageHeight = 500, pageNumber = 1,
                  lastNodeWasList = True, currentListHeight = 40, listStartPos = 7 \<rparr>"

definition marginPatch :: PartialPaginationOptions where
  "marginPatch = \<lparr> has_pageHeight = None, has_pageWidth = None, has_pageMargin = Some 50,
                   has_label = None, has_showPageNumber = None \<rparr>"

text \<open>The same rendering with one more element, at the position of a text node.\<close>

definition listView' :: EditorView where
  "listView' = listView(6 \<mapsto> element 77)"

text \<open>A document of one paragraph, taller than a page.\<close>

definition tallDoc :: Node where
  "tallDoc = Branch ''doc'' True [paragraphOf ''ab'']"

definition tallView :: EditorView where
  "tallView = [0 \<mapsto> element 1000]"

text \<open>A block quote holding a paragraph: the quote starts at 0, the paragraph at 1.\<close>

definition blockquote :: Node where
  "blockquote = Branch ''blockquote'' True [paragraphOf ''ab'']"

definition quoteDoc :: Node where
  "quoteDoc = Branch ''doc'' True [blockquote]"

definition quoteView :: EditorView where
  "quoteView = [0 \<mapsto> element 500, 1 \<mapsto> element 500]"

text \<open>Three paragraphs of heights 500, 500 and 100, at 0, 3 and 6; and a heading and two
  paragraphs of the same heights, at 0, 7 and 12.\<close>

definition threeParagraphs :: Node where
  "threeParagraphs = Branch ''doc'' True [paragraphOf ''a'', paragraphOf ''b'', paragraphOf ''c'']"

definition threeView :: EditorView where
  "threeView = [0 \<mapsto> element 500, 3 \<mapsto> element 500, 6 \<mapsto> element 100]"

definition heading :: Node where
  "heading = Branch ''heading'' True [Text ''Title'']"

definition article :: Node where
  "article = Branch ''doc'' True [heading, paragraphOf ''abc'', paragraphOf ''d'']"

definition articleView :: EditorView where
  "articleView = [0 \<mapsto> element 500, 7 \<mapsto> element 500, 12 \<mapsto> element 100]"

text \<open>A bullet list of three items of height 10, each a paragraph of height 10, under
  options whose effective page height is negative. The list starts at 0, the items at
  1, 6 and 11, their paragraphs at 2, 7 and 12.\<close>

definition threeItems :: Node where
  "threeItems = Branch ''doc'' True
     [Branch ''bulletList'' True [listItemOf ''a'', listItemOf ''b'', listItemOf ''c'']]"

definition itemsView :: EditorView where
  "itemsView = [0 \<mapsto> element 30, 1 \<mapsto> element 10, 2 \<mapsto> element 10, 6 \<mapsto> element 10,
                7 \<mapsto> element 10, 11 \<mapsto> element 10, 12 \<mapsto> element 10]"

definition degenerate :: PaginationOptions where
  "degenerate = addOptions\<lparr>pageHeight := 100\<rparr>"

definition options2 :: PaginationOptions2 where
  "options2 = \<lparr> pageHeight2 = 1056, pageWidth2 = 816, pageMargin2 = 96 \<rparr>"

text \<open>A paragraph followed by two list items that hold text only, at 0, 3 and 6.\<close>

definition flatItems :: Node where
  "flatItems = Branch ''doc'' True
     [paragraphOf ''x'', Branch ''listItem'' True [Text ''a''], Branch ''listItem'' True [Text ''b'']]"

definition flatView :: EditorView where
  "flatView = [0 \<mapsto> element 100, 3 \<mapsto> element 500, 6 \<mapsto> element 500]"

section \<open>Properties\<close>

lemmas example_defs = element_def paragraphOf_def listItemOf_def listDoc_def listView_def
  listView'_def tallDoc_def tallView_def blockquote_def quoteDoc_def quoteView_def
  threeParagraphs_def threeView_def heading_def article_def articleView_def threeItems_def
  itemsView_def degenerate_def options2_def addOptions_def flatItems_def flatView_def

subsection \<open>The callback in terms of the measured height\<close>

lemma isLastListItem_eq:
  "(case nx of None \<Rightarrow> True
     | Some x \<Rightarrow> typeName x \<noteq> ''listItem'' \<and> typeName x \<noteq> ''bulletList''
         \<and> typeName x \<noteq> ''orderedList'') = isLastListItem nx"
  by (auto simp: isLastListItem_def isListNode_def split: option.splits)

lemma isListNode_eq:
  "((typeName n = ''bulletList'' \<or> typeName n = ''orderedList'') \<or> typeName n = ''listItem'')
     = isListNode n"
  by (auto simp: isListNode_def)

lemma callback_measured:
  "callback d view eff (n, p) st =
     (case measured view (n, p) of
        None \<Rightarrow> Inr st
      | Some h \<Rightarrow>
          if h = 0 then Inr st
          else if isListNode n then
            (case nodeAt d (p + nodeSize n) of
               Inl e \<Rightarrow> Inl e
             | Inr nx \<Rightarrow> Inr (if isLastListItem nx then closeList eff (accumulate p h st)
                              else accumulate p h st))
          else Inr (placeBlock eff p h (st\<lparr>lastNodeWasList := False\<rparr>)))"
proof (cases "isBlock n")
  case False
  then show ?thesis by (simp add: measured_def)
next
  case True
  show ?thesis
  proof (cases "view p")
    case None
    with True show ?thesis by (simp add: measured_def)
  next
    case (Some el)
    define h where
      "h = (if typeName n = ''listItem'' then calculateListItemHeight el else offsetHeight el)"
    have m: "measured view (n, p) = Some h"
      using True Some by (simp add: measured_def h_def)
    have "callback d view eff (n, p) st =
        (if h = 0 then Inr st
          else if isListNode n then
            (case nodeAt d (p + nodeSize n) of
               Inl e \<Rightarrow> Inl e
             | Inr nx \<Rightarrow> Inr (if isLastListItem nx then closeList eff (accumulate p h st)
                              else accumulate p h st))
          else Inr (placeBlock eff p h (st\<lparr>lastNodeWasList := False\<rparr>)))"
      unfolding callback.simps
      apply (simp only: True Some not_True_eq_False if_False option.case)
      apply (simp only: Let_def)
      apply (simp only: h_def [symmetric] isLastListItem_eq isListNode_eq)
      apply (simp add: accumulate_def closeList_def placeBlock_def createPageBreak_def
          split: sum.split)
      done
    with m show ?thesis by simp
  qed
qed

declare callback.simps [simp del]

lemma callback_cases:
  assumes "callback d view eff (n, p) st = Inr st1"
  obtains (skip) "st1 = st"
  | (block) h where "measured view (n, p) = Some h" "h \<noteq> 0" "\<not> isListNode n"
      "st1 = placeBlock eff p h (st\<lparr>lastNodeWasList := False\<rparr>)"
  | (opened) h nx where "measured view (n, p) = Some h" "h \<noteq> 0" "isListNode n"
      "nodeAt d (p + nodeSize n) = Inr nx" "\<not> isLastListItem nx" "st1 = accumulate p h st"
  | (closed) h nx where "measured view (n, p) = Some h" "h \<noteq> 0" "isListNode n"
      "nodeAt d (p + nodeSize n) = Inr nx" "isLastListItem nx"
      "st1 = closeList eff (accumulate p h st)"
  using assms
  by (auto simp: callback_measured split: option.splits if_splits sum.splits)

lemma callback_total:
  assumes "nodeAt d (p + nodeSize n) = Inr r"
  shows "\<exists>st1. callback d view eff (n, p) st = Inr st1"
  using assms by (simp add: callback_measured split: option.splits)

subsection \<open>Positions in the traversal\<close>

lemma visit_content: "visit n p = (n, p) # visitAll (content n) (Suc p)"
  by (cases n) simp_all

lemma isBlock_nodeSize: "isBlock n \<Longrightarrow> 1 \<le> nodeSize n"
  by (cases n) simp_all

text \<open>Every visited node lies within the span of the content traversed.\<close>

lemma visit_bounds:
  "(m, q) \<in> set (visit n p) \<Longrightarrow> p \<le> q \<and> q + nodeSize m \<le> p + nodeSize n"
  "(m, q) \<in> set (visitAll ns p) \<Longrightarrow> p \<le> q \<and> q + nodeSize m \<le> p + contentSize ns"
proof (induction n p and ns p rule: visit_visitAll.induct)
  case (3 t b cs p)
  then show ?case by (fastforce simp: contentSize_def)
next
  case (5 c cs p)
  then show ?case by (fastforce simp: contentSize_def)
qed (simp_all add: contentSize_def)

lemma block_bounds:
  assumes "(m, q) \<in> set (visitAll ns p)" "isBlock m"
  shows "p \<le> q \<and> q < p + contentSize ns"
  using visit_bounds(2) [OF assms(1)] isBlock_nodeSize [OF assms(2)] by linarith

lemma block_bounds_visit:
  assumes "(m, q) \<in> set (visit n p)" "isBlock m"
  shows "p \<le> q \<and> q < p + nodeSize n"
  using visit_bounds(1) [OF assms(1)] isBlock_nodeSize [OF assms(2)] by linarith

text \<open>The block-level nodes are visited at strictly increasing positions.\<close>

lemma blockVisits_sorted:
  "sorted_wrt (<) (map snd (blockVisits (visit n p)))"
  "sorted_wrt (<) (map snd (blockVisits (visitAll ns p)))"
proof (induction n p and ns p rule: visit_visitAll.induct)
  case (3 t b cs p)
  have "\<forall>v \<in> set (blockVisits (visitAll cs (p + 1))). p < snd v"
    using block_bounds [of _ _ cs "p + 1"] by (fastforce simp: blockVisits_def)
  with 3 show ?case by (simp add: blockVisits_def)
next
  case (5 c cs p)
  have "\<forall>v \<in> set (blockVisits (visit c p)).
      \<forall>w \<in> set (blockVisits (visitAll cs (p + nodeSize c))). snd v < snd w"
    using block_bounds_visit [of _ _ c p] block_bounds [of _ _ cs "p + nodeSize c"]
    by (fastforce simp: blockVisits_def)
  with 5 show ?case by (simp add: blockVisits_def sorted_wrt_append)
qed (simp_all add: blockVisits_def)

text \<open>\<^verbatim>\<open>nodeAt\<close> does not throw for a position within the document.\<close>

lemma nodeAtContent_in_range:
  "pos \<le> contentSize ns \<Longrightarrow> \<exists>r. nodeAtContent ns pos = Inr r"
proof (induction ns pos rule: nodeAtContent.induct)
  case (1 pos)
  then show ?case by (simp add: contentSize_def)
next
  case (2 c cs pos)
  show ?case
  proof (cases "pos = 0")
    case True
    then show ?thesis by simp
  next
    case nz: False
    show ?thesis
    proof (cases "pos < nodeSize c")
      case True
      show ?thesis
      proof (cases c)
        case (Branch t b ch)
        with True have "pos - 1 \<le> contentSize ch" by (simp add: contentSize_def)
        with "2.IH"(1) [OF nz True Branch] nz True Branch show ?thesis by simp
      qed (use nz True in simp_all)
    next
      case False
      with "2.prems" have "pos - nodeSize c \<le> contentSize cs" by (simp add: contentSize_def)
      with "2.IH"(2) [OF nz False] nz False show ?thesis by simp
    qed
  qed
qed

lemma descendants_nodeAt:
  assumes "(n, p) \<in> set (descendants d)"
  shows "\<exists>r. nodeAt d (p + nodeSize n) = Inr r"
proof -
  from assms have "p + nodeSize n \<le> contentSize (content d)"
    using visit_bounds(2) [of n p "content d" 0] by (simp add: descendants_def)
  then show ?thesis unfolding nodeAt_def by (rule nodeAtContent_in_range)
qed

subsection \<open>The traversal\<close>

lemma forEach_append:
  "forEach f (xs @ ys) s = (case forEach f xs s of Inl e \<Rightarrow> Inl e | Inr s' \<Rightarrow> forEach f ys s')"
  by (induction xs arbitrary: s) (simp_all split: sum.splits)

text \<open>Only the block-level nodes matter to the callback.\<close>

lemma forEach_blockVisits:
  "forEach (callback d view eff) vs st = forEach (callback d view eff) (blockVisits vs) st"
proof (induction vs arbitrary: st)
  case Nil
  show ?case by (simp add: blockVisits_def)
next
  case (Cons v vs)
  show ?case
  proof (cases "isBlock (fst v)")
    case True
    with Cons show ?thesis by (simp add: blockVisits_def split: sum.splits)
  next
    case False
    then have "callback d view eff v st = Inr st"
      by (cases v) (simp add: callback_measured measured_def)
    with False Cons show ?thesis by (simp add: blockVisits_def)
  qed
qed

lemma run_total:
  assumes "\<forall>v \<in> set vs. \<exists>r. nodeAt d (snd v + nodeSize (fst v)) = Inr r"
  shows "\<exists>st'. forEach (callback d view eff) vs st = Inr st'"
  using assms
proof (induction vs arbitrary: st)
  case Nil
  show ?case by simp
next
  case (Cons v vs)
  obtain n p where v: "v = (n, p)" by (cases v)
  from Cons.prems obtain r where "nodeAt d (p + nodeSize n) = Inr r" by (auto simp: v)
  from callback_total [OF this] obtain st1 where "callback d view eff (n, p) st = Inr st1"
    by blast
  moreover from Cons.IH [of st1] Cons.prems obtain st' where
    "forEach (callback d view eff) vs st1 = Inr st'" by auto
  ultimately show ?case by (simp add: v)
qed

text \<open>The traversal of a document never ends in an exception.\<close>

lemma traverse_total: "\<exists>st'. traverse state view = Inr st'"
  unfolding traverse_def
  by (rule run_total) (auto dest: descendants_nodeAt)

lemma callback_ordered:
  assumes "ordered b st" "b \<le> p" "callback d view eff (n, p) st = Inr st1"
  shows "ordered (Suc p) st1
    \<and> (\<exists>new. decorations st1 = decorations st @ new
          \<and> (\<forall>w \<in> set new. lower b st \<le> widgetPos w))
    \<and> lower b st \<le> lower (Suc p) st1"
  using assms(3)
proof (cases rule: callback_cases)
  case skip
  with assms(1,2) show ?thesis
    by (auto simp: ordered_def lower_def)
next
  case (block h)
  with assms(1,2) show ?thesis
    by (auto simp: ordered_def lower_def placeBlock_def sorted_wrt_append)
next
  case (opened h nx)
  with assms(1,2) show ?thesis
    by (auto simp: ordered_def lower_def accumulate_def)
next
  case (closed h nx)
  with assms(1,2) show ?thesis
    by (auto simp: ordered_def lower_def accumulate_def closeList_def placeBlock_def
        sorted_wrt_append)
qed

lemma run_ordered:
  assumes "sorted_wrt (<) (map snd vs)" "\<forall>v \<in> set vs. b \<le> snd v" "ordered b st"
    and "forEach (callback d view eff) vs st = Inr st'"
  shows "\<exists>new. decorations st' = decorations st @ new
    \<and> sorted_wrt (<) (map widgetPos (decorations st'))
    \<and> (\<forall>w \<in> set new. lower b st \<le> widgetPos w)"
  using assms
proof (induction vs arbitrary: b st)
  case Nil
  then show ?case by (simp add: ordered_def)
next
  case (Cons v vs)
  obtain n p where v: "v = (n, p)" by (cases v)
  from Cons.prems(4) obtain st1 where
    st1: "callback d view eff (n, p) st = Inr st1"
    and rest: "forEach (callback d view eff) vs st1 = Inr st'"
    by (auto simp: v split: sum.splits)
  from Cons.prems(2) have bp: "b \<le> p" by (simp add: v)
  from callback_ordered [OF Cons.prems(3) bp st1] obtain new1 where
    o1: "ordered (Suc p) st1"
    and d1: "decorations st1 = decorations st @ new1"
    and n1: "\<forall>w \<in> set new1. lower b st \<le> widgetPos w"
    and l1: "lower b st \<le> lower (Suc p) st1"
    by blast
  from Cons.prems(1) have s: "sorted_wrt (<) (map snd vs)" and
    "\<forall>w \<in> set vs. Suc p \<le> snd w"
    by (auto simp: v)
  from Cons.IH [OF this o1 rest] obtain new2 where
    d2: "decorations st' = decorations st1 @ new2"
    and s2: "sorted_wrt (<) (map widgetPos (decorations st'))"
    and n2: "\<forall>w \<in> set new2. lower (Suc p) st1 \<le> widgetPos w"
    by blast
  have "decorations st' = decorations st @ (new1 @ new2)" by (simp add: d1 d2)
  moreover have "\<forall>w \<in> set (new1 @ new2). lower b st \<le> widgetPos w"
    using n1 n2 l1 by fastforce
  ultimately show ?case using s2 by blast
qed

lemma ordered_initial: "ordered 0 initial"
  by (simp add: ordered_def initial_def)

text \<open>Widgets are only ever added.\<close>

lemma callback_grows:
  assumes "callback d view eff (n, p) st = Inr st1"
  shows "set (decorations st) \<subseteq> set (decorations st1)"
  using assms
  by (cases rule: callback_cases) (auto simp: placeBlock_def accumulate_def closeList_def)

lemma run_grows:
  assumes "forEach (callback d view eff) vs st = Inr st'"
  shows "set (decorations st) \<subseteq> set (decorations st')"
  using assms
proof (induction vs arbitrary: st)
  case Nil
  then show ?case by simp
next
  case (Cons v vs)
  obtain n p where v: "v = (n, p)" by (cases v)
  from Cons.prems obtain st1 where
    st1: "callback d view eff (n, p) st = Inr st1"
    and rest: "forEach (callback d view eff) vs st1 = Inr st'"
    by (auto simp: v split: sum.splits)
  from callback_grows [OF st1] Cons.IH [OF rest] show ?case by blast
qed

lemma forEach_split:
  assumes "forEach f (pre @ v # post) s = Inr s'"
  obtains s0 s1 where "forEach f pre s = Inr s0" "f v s0 = Inr s1" "forEach f post s1 = Inr s'"
  using assms by (auto simp: forEach_append split: sum.splits)

subsection \<open>Monotonic positions\<close>

text \<open>
  Claim C5: for every document, rendering and options, the traversal ends without an
  exception and the positions of the page breaks it returns, in the order they were
  pushed, are strictly increasing.
\<close>

theorem positions_strictly_increasing:
  "\<exists>ds. props_decorations state view = Inr ds \<and> sorted_wrt (<) (map widgetPos ds)"
proof -
  obtain st' where t: "traverse state view = Inr st'"
    using traverse_total by blast
  let ?vs = "blockVisits (descendants (doc state))"
  have run: "forEach (callback (doc state) view (effectivePageHeight (pluginState state)))
      ?vs initial = Inr st'"
    using t unfolding traverse_def by (simp add: forEach_blockVisits [symmetric])
  have "sorted_wrt (<) (map snd ?vs)"
    unfolding descendants_def by (rule blockVisits_sorted(2))
  from run_ordered [OF this _ ordered_initial run]
  have "sorted_wrt (<) (map widgetPos (decorations st'))" by auto
  with t show ?thesis by (simp add: props_decorations_def)
qed

theorem positions_strictly_increasing_witness:
  "props_decorations \<lparr> doc = listDoc, pluginState = addOptions \<rparr> listView
     = Inr [Widget 3, Widget 5, Widget 9, Widget 10]
   \<and> sorted_wrt (<) (map widgetPos [Widget 3, Widget 5, Widget 9, Widget 10])"
proof -
  have e: "props_decorations \<lparr> doc = listDoc, pluginState = addOptions \<rparr> listView
     = Inr [Widget 3, Widget 5, Widget 9, Widget 10]"
    by code_simp
  with positions_strictly_increasing [of "\<lparr> doc = listDoc, pluginState = addOptions \<rparr>" listView]
  show ?thesis by simp
qed

subsection \<open>Nodes of height zero\<close>

text \<open>
  Claim C6: for a visited block-level node whose measured height is 0, the callback
  returns with every variable as it was: no page break is pushed, and
  \<^verbatim>\<open>currentPageHeight\<close>, \<^verbatim>\<open>pageNumber\<close> and the list accumulator
  (\<^verbatim>\<open>lastNodeWasList\<close>, \<^verbatim>\<open>currentListHeight\<close>, \<^verbatim>\<open>listStartPos\<close>) are unchanged.
\<close>

theorem zero_height_skipped:
  assumes "isBlock node" and "nodeDOM pos = Some el"
    and "(if typeName node = ''listItem'' then calculateListItemHeight el
          else offsetHeight el) = 0"
  shows "callback d nodeDOM eff (node, pos) st = Inr st"
  using assms by (simp add: callback_measured measured_def)

theorem zero_height_skipped_witness:
  "isBlock (listItemOf ''a'') \<and> [4 \<mapsto> element 0] (4::nat) = Some (element 0)
   \<and> (if typeName (listItemOf ''a'') = ''listItem'' then calculateListItemHeight (element 0)
       else offsetHeight (element 0)) = 0
   \<and> callback listDoc [4 \<mapsto> element 0] 864 (listItemOf ''a'', 4) someLocals = Inr someLocals"
proof -
  have 1: "isBlock (listItemOf ''a'')" by (simp add: listItemOf_def)
  have 2: "[4 \<mapsto> element 0] (4::nat) = Some (element 0)" by simp
  have 3: "(if typeName (listItemOf ''a'') = ''listItem'' then calculateListItemHeight (element 0)
       else offsetHeight (element 0)) = 0"
    by (simp add: listItemOf_def calculateListItemHeight_def element_def)
  from zero_height_skipped
    [of "listItemOf ''a''" "[4 \<mapsto> element 0]" 4 "element 0" listDoc 864 someLocals, OF 1 2 3]
    1 2 3
  show ?thesis by simp
qed

subsection \<open>Patching the options\<close>

text \<open>
  Claim C8: applying a transaction that carries a partial patch gives the shallow merge
  of the patch over the current options: a key present in the patch takes the patch's
  value, a key absent from it keeps its value. In particular a patch of
  \<^verbatim>\<open>pageMargin\<close> alone changes nothing else, and the effective page height of the next
  computation is the old page height less twice the new margin.
\<close>

theorem patch_is_shallow_merge:
  assumes "getMeta_paginationOptions tr = Some patch"
  shows "pageHeight (state_apply tr v)
           = (case has_pageHeight patch of None \<Rightarrow> pageHeight v | Some x \<Rightarrow> x)
    \<and> pageWidth (state_apply tr v)
           = (case has_pageWidth patch of None \<Rightarrow> pageWidth v | Some x \<Rightarrow> x)
    \<and> pageMargin (state_apply tr v)
           = (case has_pageMargin patch of None \<Rightarrow> pageMargin v | Some x \<Rightarrow> x)
    \<and> label (state_apply tr v)
           = (case has_label patch of None \<Rightarrow> label v | Some x \<Rightarrow> x)
    \<and> showPageNumber (state_apply tr v)
           = (case has_showPageNumber patch of None \<Rightarrow> showPageNumber v | Some x \<Rightarrow> x)
    \<and> (has_pageHeight patch = None \<and> has_pageWidth patch = None
         \<and> has_pageMargin patch = Some m \<and> has_label patch = None
         \<and> has_showPageNumber patch = None
       \<longrightarrow> state_apply tr v = v\<lparr>pageMargin := m\<rparr>
           \<and> effectivePageHeight (state_apply tr v) = pageHeight v - 2 * m)"
  using assms by (simp add: state_apply_def spread_def effectivePageHeight_def)

theorem patch_is_shallow_merge_witness:
  "state_apply \<lparr> getMeta_paginationOptions = Some marginPatch \<rparr> addOptions
     = \<lparr> pageHeight = 1056, pageWidth = 816, pageMargin = 50,
         label = Some ''Page'', showPageNumber = Some True \<rparr>
   \<and> effectivePageHeight
       (state_apply \<lparr> getMeta_paginationOptions = Some marginPatch \<rparr> addOptions) = 956"
proof -
  let ?tr = "\<lparr> getMeta_paginationOptions = Some marginPatch \<rparr>"
  have m: "has_pageHeight marginPatch = None \<and> has_pageWidth marginPatch = None
      \<and> has_pageMargin marginPatch = Some 50 \<and> has_label marginPatch = None
      \<and> has_showPageNumber marginPatch = None"
    by (simp add: marginPatch_def)
  have "getMeta_paginationOptions ?tr = Some marginPatch"
    by simp
  from patch_is_shallow_merge [OF this, of addOptions 50] m
  have "state_apply ?tr addOptions = addOptions\<lparr>pageMargin := 50\<rparr>
      \<and> effectivePageHeight (state_apply ?tr addOptions) = pageHeight addOptions - 2 * 50"
    by blast
  then show ?thesis by (simp add: addOptions_def effectivePageHeight_def)
qed

subsection \<open>The first block\<close>

lemma forEach_cong:
  "(\<And>v s. v \<in> set vs \<Longrightarrow> f v s = g v s) \<Longrightarrow> forEach f vs s = forEach g vs s"
  by (induction vs arbitrary: s) (simp_all split: sum.splits)

lemma run_skips:
  assumes "\<forall>v \<in> set vs. measured view v = None \<or> measured view v = Some 0"
  shows "forEach (callback d view eff) vs st = Inr st"
  using assms
proof (induction vs)
  case Nil
  show ?case by simp
next
  case (Cons v vs)
  obtain n p where v: "v = (n, p)" by (cases v)
  from Cons.prems have "callback d view eff (n, p) st = Inr st"
    by (auto simp: v callback_measured)
  with Cons show ?case by (simp add: v)
qed

lemma blockVisits_append: "blockVisits (xs @ ys) = blockVisits xs @ blockVisits ys"
  by (simp add: blockVisits_def)

lemma measured_isBlock: "measured view (n, p) = Some h \<Longrightarrow> isBlock n"
  by (simp add: measured_def split: if_splits)

text \<open>
  Claim C2, as the code has it: no page break is pushed at a position before the first
  visited block-level node with a height other than 0. When that node is an ordinary
  (non-list) block, a page break is pushed at its position exactly when its height
  alone exceeds the effective page height, and in either case its height becomes
  \<^verbatim>\<open>currentPageHeight\<close>. There is no exemption for the first content.
\<close>

theorem first_block_break:
  assumes split: "descendants (doc state) = pre @ (n, p) # post"
    and pre: "\<forall>v \<in> set pre. measured view v = None \<or> measured view v = Some 0"
    and h: "measured view (n, p) = Some h" "h \<noteq> 0"
  shows "\<exists>ds st. props_decorations state view = Inr ds
      \<and> (\<forall>w \<in> set ds. p \<le> widgetPos w)
      \<and> forEach (callback (doc state) view (effectivePageHeight (pluginState state)))
            (pre @ [(n, p)]) initial = Inr st
      \<and> (\<not> isListNode n \<longrightarrow>
            (Widget p \<in> set ds \<longleftrightarrow> effectivePageHeight (pluginState state) < h)
            \<and> currentPageHeight st = h)"
proof -
  let ?d = "doc state" and ?eff = "effectivePageHeight (pluginState state)"
  let ?cb = "callback ?d view ?eff"
  obtain st' where t: "traverse state view = Inr st'"
    using traverse_total by blast
  have blk: "isBlock n" using h(1) by (rule measured_isBlock)
  have "(n, p) \<in> set (descendants ?d)" by (simp add: split)
  from descendants_nodeAt [OF this] callback_total obtain st1 where
    st1: "?cb (n, p) initial = Inr st1" by blast
  have pre_run: "forEach ?cb pre initial = Inr initial"
    using pre by (rule run_skips)
  have first: "forEach ?cb (pre @ [(n, p)]) initial = Inr st1"
    by (simp add: forEach_append pre_run st1)
  have "forEach ?cb ((pre @ [(n, p)]) @ post) initial = Inr st'"
    using t by (simp add: traverse_def split)
  then have post_run: "forEach ?cb post st1 = Inr st'"
    unfolding forEach_append [of _ "pre @ [(n, p)]"] first by simp
  then have post_run': "forEach ?cb (blockVisits post) st1 = Inr st'"
    by (simp add: forEach_blockVisits [symmetric])
  have "ordered p initial" by (simp add: ordered_def initial_def)
  from callback_ordered [OF this order_refl st1] obtain new1 where
    o1: "ordered (Suc p) st1" and d1: "decorations st1 = new1"
    and n1: "\<forall>w \<in> set new1. p \<le> widgetPos w"
    and l1: "p \<le> lower (Suc p) st1"
    by (auto simp: lower_def initial_def)
  have "sorted_wrt (<) (map snd (blockVisits (descendants ?d)))"
    unfolding descendants_def by (rule blockVisits_sorted(2))
  then have "sorted_wrt (<) (map snd ((n, p) # blockVisits post))"
    using blk by (simp add: split blockVisits_append blockVisits_def sorted_wrt_append)
  then have sp: "sorted_wrt (<) (map snd (blockVisits post))"
    and bp: "\<forall>v \<in> set (blockVisits post). Suc p \<le> snd v"
    by auto
  from run_ordered [OF sp bp o1 post_run'] obtain new2 where
    d2: "decorations st' = decorations st1 @ new2"
    and n2: "\<forall>w \<in> set new2. lower (Suc p) st1 \<le> widgetPos w"
    by blast
  have ds: "props_decorations state view = Inr (new1 @ new2)"
    by (simp add: props_decorations_def t d1 d2)
  have all: "\<forall>w \<in> set (new1 @ new2). p \<le> widgetPos w"
    using n1 n2 l1 by fastforce
  have nonlist: "(Widget p \<in> set (new1 @ new2) \<longleftrightarrow> ?eff < h) \<and> currentPageHeight st1 = h"
    if nl: "\<not> isListNode n"
  proof -
    from st1 h nl have s: "st1 = placeBlock ?eff p h (initial\<lparr>lastNodeWasList := False\<rparr>)"
      by (simp add: callback_measured)
    then have "lower (Suc p) st1 = Suc p"
      by (simp add: lower_def placeBlock_def)
    with n2 have "Widget p \<notin> set new2" by fastforce
    moreover have "Widget p \<in> set new1 \<longleftrightarrow> ?eff < h"
      using d1 [symmetric] by (simp add: s placeBlock_def initial_def)
    moreover have "currentPageHeight st1 = h"
      by (simp add: s placeBlock_def initial_def)
    ultimately show ?thesis by simp
  qed
  from ds all first nonlist show ?thesis by blast
qed

theorem first_block_break_witness:
  "props_decorations \<lparr> doc = tallDoc, pluginState = addOptions \<rparr> tallView = Inr [Widget 0]
   \<and> effectivePageHeight addOptions < 1000 \<and> \<not> isListNode (paragraphOf ''ab'')"
proof -
  let ?S = "\<lparr> doc = tallDoc, pluginState = addOptions \<rparr>"
  have split: "descendants (doc ?S) = [] @ (paragraphOf ''ab'', 0) # [(Text ''ab'', 1)]"
    by (simp add: descendants_def example_defs)
  have pre: "\<forall>v \<in> set []. measured tallView v = None \<or> measured tallView v = Some 0"
    by simp
  have h: "measured tallView (paragraphOf ''ab'', 0) = Some 1000" "(1000::real) \<noteq> 0"
    by (simp_all add: measured_def example_defs)
  have nl: "\<not> isListNode (paragraphOf ''ab'')"
    by (simp add: isListNode_def example_defs)
  have e: "props_decorations ?S tallView = Inr [Widget 0]"
    by code_simp
  from first_block_break [OF split pre h] e nl
  have "effectivePageHeight (pluginState ?S) < 1000" by auto
  with e nl show ?thesis by simp
qed

text \<open>
  Claim C2 as stated fails: a document of one paragraph of height 1000, under an
  effective page height of 864, gets a page break at position 0, before its first
  content.
\<close>

theorem first_content_counterexample:
  "descendants tallDoc = [(paragraphOf ''ab'', 0), (Text ''ab'', 1)]
   \<and> measured tallView (paragraphOf ''ab'', 0) = Some 1000
   \<and> effectivePageHeight addOptions = 864
   \<and> props_decorations \<lparr> doc = tallDoc, pluginState = addOptions \<rparr> tallView = Inr [Widget 0]"
  by code_simp


subsection \<open>Determinism\<close>

lemma callback_view_cong:
  assumes "measured view1 v = measured view2 v"
  shows "callback d view1 eff v st = callback d view2 eff v st"
  using assms by (cases v) (simp add: callback_measured)

text \<open>
  Claim C7: the page breaks are a function of the document, the options and the heights
  measured for the visited nodes. Two invocations on the same document and options,
  with renderings that give every visited node the same measured height, return the
  same decorations in the same order, and the widgets drawn carry the same page numbers.
\<close>

theorem same_heights_same_breaks:
  assumes "\<forall>v \<in> set (descendants (doc state)). measured view1 v = measured view2 v"
  shows "props_decorations state view1 = props_decorations state view2
    \<and> pageBreaks state view1 = pageBreaks state view2"
proof -
  have "traverse state view1 = traverse state view2"
    unfolding traverse_def using assms
    by (intro forEach_cong callback_view_cong) simp
  then show ?thesis by (simp add: props_decorations_def pageBreaks_def)
qed

theorem same_heights_same_breaks_witness:
  "props_decorations \<lparr> doc = listDoc, pluginState = addOptions \<rparr> listView
     = props_decorations \<lparr> doc = listDoc, pluginState = addOptions \<rparr> listView'
   \<and> pageBreaks \<lparr> doc = listDoc, pluginState = addOptions \<rparr> listView
     = pageBreaks \<lparr> doc = listDoc, pluginState = addOptions \<rparr> listView'
   \<and> listView 6 \<noteq> listView' 6"
proof -
  let ?S = "\<lparr> doc = listDoc, pluginState = addOptions \<rparr>"
  have "\<forall>v \<in> set (descendants (doc ?S)). measured listView v = measured listView' v"
    by (simp add: descendants_def measured_def example_defs)
  from same_heights_same_breaks [OF this]
  show ?thesis by (simp add: listView'_def listView_def)
qed

subsection \<open>Where a page break can lie\<close>

lemma inside_is_descendant:
  "(m, q) \<in> set (visit c s) \<Longrightarrow> (n, p) \<in> set (visit c s) \<Longrightarrow> q < p \<Longrightarrow> p < q + nodeSize m
     \<Longrightarrow> (n, p) \<in> set (visitAll (content m) (Suc q))"
  "(m, q) \<in> set (visitAll cs s) \<Longrightarrow> (n, p) \<in> set (visitAll cs s) \<Longrightarrow> q < p
     \<Longrightarrow> p < q + nodeSize m \<Longrightarrow> (n, p) \<in> set (visitAll (content m) (Suc q))"
proof (induction c s and cs s rule: visit_visitAll.induct)
  case (3 t b cs s)
  show ?case
  proof (cases "(m, q) = (Branch t b cs, s)")
    case True
    with "3.prems" show ?thesis by auto
  next
    case False
    with "3.prems"(1) have mq: "(m, q) \<in> set (visitAll cs (s + 1))" by auto
    from visit_bounds(2) [OF mq] "3.prems"(3) have "(n, p) \<noteq> (Branch t b cs, s)" by auto
    with "3.prems"(2) have "(n, p) \<in> set (visitAll cs (s + 1))" by auto
    from "3.IH" [OF mq this "3.prems"(3,4)] show ?thesis .
  qed
next
  case (5 c cs s)
  from "5.prems"(1) consider (a) "(m, q) \<in> set (visit c s)"
    | (b) "(m, q) \<in> set (visitAll cs (s + nodeSize c))" by auto
  then show ?case
  proof cases
    case a
    from "5.prems"(2) consider (a') "(n, p) \<in> set (visit c s)"
      | (b') "(n, p) \<in> set (visitAll cs (s + nodeSize c))" by auto
    then show ?thesis
    proof cases
      case a'
      from "5.IH"(1) [OF a a' "5.prems"(3,4)] show ?thesis .
    next
      case b'
      from visit_bounds(1) [OF a] visit_bounds(2) [OF b'] "5.prems"(4)
      show ?thesis by linarith
    qed
  next
    case b
    from "5.prems"(2) consider (a') "(n, p) \<in> set (visit c s)"
      | (b') "(n, p) \<in> set (visitAll cs (s + nodeSize c))" by auto
    then show ?thesis
    proof cases
      case a'
      from visit_bounds(2) [OF b] visit_bounds(1) [OF a'] "5.prems"(3)
      show ?thesis by linarith
    next
      case b'
      from "5.IH"(2) [OF b b' "5.prems"(3,4)] show ?thesis .
    qed
  qed
qed simp_all

lemma callback_cases_measured:
  assumes "callback d view eff (n, p) st = Inr st1"
  obtains (skip) "measured view (n, p) = None \<or> measured view (n, p) = Some 0" "st1 = st"
  | (block) h where "measured view (n, p) = Some h" "h \<noteq> 0" "\<not> isListNode n"
      "st1 = placeBlock eff p h (st\<lparr>lastNodeWasList := False\<rparr>)"
  | (opened) h nx where "measured view (n, p) = Some h" "h \<noteq> 0" "isListNode n"
      "nodeAt d (p + nodeSize n) = Inr nx" "\<not> isLastListItem nx" "st1 = accumulate p h st"
  | (closed) h nx where "measured view (n, p) = Some h" "h \<noteq> 0" "isListNode n"
      "nodeAt d (p + nodeSize n) = Inr nx" "isLastListItem nx"
      "st1 = closeList eff (accumulate p h st)"
  using assms
  by (auto simp: callback_measured split: option.splits if_splits sum.splits)

lemma continues_skip:
  "measured view v = None \<or> measured view v = Some 0 \<Longrightarrow> continues d view v"
  by (auto simp: continues_def)

lemma continues_open:
  "measured view (n, p) = Some h \<Longrightarrow> isListNode n \<Longrightarrow> nodeAt d (p + nodeSize n) = Inr nx
     \<Longrightarrow> \<not> isLastListItem nx \<Longrightarrow> continues d view (n, p)"
  by (simp add: continues_def)

lemma openFrom_snoc:
  assumes "openFrom d view eff vs st" "continues d view v" "listStartPos st' = listStartPos st"
  shows "openFrom d view eff (vs @ [v]) st'"
proof -
  from assms(1) obtain pre n mid st0 h where
    "vs = pre @ (n, listStartPos st) # mid"
    "forEach (callback d view eff) pre initial = Inr st0" "\<not> lastNodeWasList st0"
    "isListNode n" "measured view (n, listStartPos st) = Some h" "h \<noteq> 0"
    "\<forall>v \<in> set ((n, listStartPos st) # mid). continues d view v"
    unfolding openFrom_def by blast
  with assms(2) have "vs @ [v] = pre @ (n, listStartPos st') # (mid @ [v])
      \<and> forEach (callback d view eff) pre initial = Inr st0 \<and> \<not> lastNodeWasList st0
      \<and> isListNode n \<and> measured view (n, listStartPos st') = Some h \<and> h \<noteq> 0
      \<and> (\<forall>v \<in> set ((n, listStartPos st') # (mid @ [v])). continues d view v)"
    by (simp add: assms(3))
  then show ?thesis unfolding openFrom_def by blast
qed

lemma openFrom_start:
  assumes "forEach (callback d view eff) vs initial = Inr st" "\<not> lastNodeWasList st"
    and "isListNode n" "measured view (n, p) = Some h" "h \<noteq> 0" "continues d view (n, p)"
    and "listStartPos st' = p"
  shows "openFrom d view eff (vs @ [(n, p)]) st'"
proof -
  from assms have "vs @ [(n, p)] = vs @ (n, listStartPos st') # []
      \<and> forEach (callback d view eff) vs initial = Inr st \<and> \<not> lastNodeWasList st
      \<and> isListNode n \<and> measured view (n, listStartPos st') = Some h \<and> h \<noteq> 0
      \<and> (\<forall>v \<in> set ((n, listStartPos st') # []). continues d view v)"
    by simp
  then show ?thesis unfolding openFrom_def by blast
qed

lemma listClosedAt_self:
  assumes "D = vs @ (n, p) # rest" "forEach (callback d view eff) vs initial = Inr st"
    and "measured view (n, p) = Some h" "h \<noteq> 0" "isListNode n" "\<not> lastNodeWasList st"
    and "nodeAt d (p + nodeSize n) = Inr nx" "isLastListItem nx"
    and "eff < currentPageHeight st + currentListHeight (accumulate p h st)"
  shows "listClosedAt d view eff D p"
proof -
  from assms(6) have "listStartPos (accumulate p h st) = p" by (simp add: accumulate_def)
  with assms have "D = vs @ (n, p) # rest
        \<and> forEach (callback d view eff) vs initial = Inr st
        \<and> measured view (n, p) = Some h \<and> h \<noteq> 0 \<and> isListNode n \<and> \<not> lastNodeWasList st
        \<and> (n, p) # rest = [] @ (n, p) # rest \<and> (\<forall>v \<in> set []. continues d view v)
        \<and> forEach (callback d view eff) (vs @ []) initial = Inr st
        \<and> measured view (n, p) = Some h \<and> h \<noteq> 0 \<and> isListNode n
        \<and> nodeAt d (p + nodeSize n) = Inr nx \<and> isLastListItem nx
        \<and> listStartPos (accumulate p h st) = p
        \<and> eff < currentPageHeight st + currentListHeight (accumulate p h st)"
    by simp
  then show ?thesis unfolding listClosedAt_def by blast
qed

lemma listClosedAt_open:
  assumes "D = vs @ (m, q) # rest" "forEach (callback d view eff) vs initial = Inr st'"
    and "openFrom d view eff vs st'" "lastNodeWasList st'"
    and "measured view (m, q) = Some k" "k \<noteq> 0" "isListNode m"
    and "nodeAt d (q + nodeSize m) = Inr nx" "isLastListItem nx"
    and "eff < currentPageHeight st' + currentListHeight (accumulate q k st')"
  shows "listClosedAt d view eff D (listStartPos st')"
proof -
  let ?x = "listStartPos st'"
  from assms(3) obtain pre n mid st0 h where o:
    "vs = pre @ (n, ?x) # mid"
    "forEach (callback d view eff) pre initial = Inr st0" "\<not> lastNodeWasList st0"
    "isListNode n" "measured view (n, ?x) = Some h" "h \<noteq> 0"
    "\<forall>v \<in> set ((n, ?x) # mid). continues d view v"
    unfolding openFrom_def by blast
  from assms(4) have l: "listStartPos (accumulate q k st') = ?x" by (simp add: accumulate_def)
  have "D = pre @ (n, ?x) # (mid @ (m, q) # rest)" by (simp add: assms(1) o(1))
  moreover have "(n, ?x) # (mid @ (m, q) # rest) = ((n, ?x) # mid) @ (m, q) # rest" by simp
  moreover have "forEach (callback d view eff) (pre @ ((n, ?x) # mid)) initial = Inr st'"
    using assms(2) by (simp add: o(1))
  ultimately have "D = pre @ (n, ?x) # (mid @ (m, q) # rest)
        \<and> forEach (callback d view eff) pre initial = Inr st0
        \<and> measured view (n, ?x) = Some h \<and> h \<noteq> 0 \<and> isListNode n \<and> \<not> lastNodeWasList st0
        \<and> (n, ?x) # (mid @ (m, q) # rest) = ((n, ?x) # mid) @ (m, q) # rest
        \<and> (\<forall>v \<in> set ((n, ?x) # mid). continues d view v)
        \<and> forEach (callback d view eff) (pre @ ((n, ?x) # mid)) initial = Inr st'
        \<and> measured view (m, q) = Some k \<and> k \<noteq> 0 \<and> isListNode m
        \<and> nodeAt d (q + nodeSize m) = Inr nx \<and> isLastListItem nx
        \<and> listStartPos (accumulate q k st') = ?x
        \<and> eff < currentPageHeight st' + currentListHeight (accumulate q k st')"
    using o assms l by blast
  then show ?thesis unfolding listClosedAt_def by blast
qed

lemma prefix_origin:
  assumes "D = vs @ rest" "forEach (callback d view eff) vs initial = Inr st"
  shows "(\<forall>w \<in> set (decorations st).
            checkedAt d view eff D (widgetPos w) \<or> listClosedAt d view eff D (widgetPos w))
    \<and> (lastNodeWasList st \<longrightarrow> openFrom d view eff vs st)"
  using assms
proof (induction vs arbitrary: rest st rule: rev_induct)
  case Nil
  then show ?case by (auto simp: initial_def)
next
  case (snoc v vs)
  let ?cb = "callback d view eff"
  obtain n p where v: "v = (n, p)" by (cases v)
  from snoc.prems(2) obtain s where s: "forEach ?cb vs initial = Inr s"
    and step: "?cb (n, p) s = Inr st"
    by (auto simp: v forEach_append split: sum.splits)
  have D: "D = vs @ (n, p) # rest" using snoc.prems(1) by (simp add: v)
  from snoc.IH [OF D s] have
    old: "\<forall>w \<in> set (decorations s).
        checkedAt d view eff D (widgetPos w) \<or> listClosedAt d view eff D (widgetPos w)"
    and opn: "lastNodeWasList s \<Longrightarrow> openFrom d view eff vs s"
    by blast+
  from step show ?case
  proof (cases rule: callback_cases_measured)
    case skip
    from skip(1) have c: "continues d view v" unfolding v by (rule continues_skip)
    have "openFrom d view eff (vs @ [v]) st" if "lastNodeWasList st"
      using openFrom_snoc [OF opn c, of st] that skip(2) by simp
    with old skip(2) show ?thesis by simp
  next
    case (block h)
    have "checkedAt d view eff D p" if "eff < currentPageHeight s + h"
      unfolding checkedAt_def using D s block(1-3) that by blast
    with old block(4) show ?thesis
      by (auto simp: placeBlock_def)
  next
    case (opened h nx)
    have c: "continues d view (n, p)"
      using opened(1,3,4,5) by (rule continues_open)
    have "openFrom d view eff (vs @ [v]) st"
    proof (cases "lastNodeWasList s")
      case True
      then have "listStartPos st = listStartPos s" by (simp add: opened(6) accumulate_def)
      from openFrom_snoc [OF opn [OF True] _ this, of v] c show ?thesis by (simp add: v)
    next
      case False
      then have "listStartPos st = p" by (simp add: opened(6) accumulate_def)
      from openFrom_start [OF s False opened(3,1,2) c this] show ?thesis by (simp add: v)
    qed
    moreover have "decorations st = decorations s" by (simp add: opened(6) accumulate_def)
    ultimately show ?thesis using old by simp
  next
    case (closed h nx)
    have new: "listClosedAt d view eff D (listStartPos (accumulate p h s))"
      if over: "eff < currentPageHeight s + currentListHeight (accumulate p h s)"
    proof (cases "lastNodeWasList s")
      case True
      then have "listStartPos (accumulate p h s) = listStartPos s"
        by (simp add: accumulate_def)
      with listClosedAt_open [OF D s opn [OF True] True closed(1-5) over] show ?thesis by simp
    next
      case False
      then have "listStartPos (accumulate p h s) = p" by (simp add: accumulate_def)
      with listClosedAt_self [OF D s closed(1-3) False closed(4,5) over] show ?thesis by simp
    qed
    have cp: "currentPageHeight (accumulate p h s) = currentPageHeight s"
      by (simp add: accumulate_def)
    have "decorations (accumulate p h s) = decorations s" by (simp add: accumulate_def)
    with old new closed(6) cp show ?thesis
      by (auto simp: closeList_def placeBlock_def)
  qed
qed

lemma checkedAt_pushed:
  assumes "checkedAt d view eff D x" "forEach (callback d view eff) D initial = Inr st'"
  shows "Widget x \<in> set (decorations st')"
proof -
  from assms(1) obtain pre n post st h where D: "D = pre @ (n, x) # post"
    and st: "forEach (callback d view eff) pre initial = Inr st"
    and h: "measured view (n, x) = Some h" "h \<noteq> 0" "\<not> isListNode n"
      "eff < currentPageHeight st + h"
    unfolding checkedAt_def by blast
  from assms(2) [unfolded D] obtain s0 s1 where
    s0: "forEach (callback d view eff) pre initial = Inr s0"
    and s1: "callback d view eff (n, x) s0 = Inr s1"
    and s': "forEach (callback d view eff) post s1 = Inr st'"
    by (rule forEach_split)
  from s0 st have "s0 = st" by simp
  with s1 h have "Widget x \<in> set (decorations s1)"
    by (auto simp: callback_measured placeBlock_def)
  with run_grows [OF s'] show ?thesis by blast
qed

lemma listClosedAt_pushed:
  assumes "listClosedAt d view eff D x" "forEach (callback d view eff) D initial = Inr st'"
  shows "Widget x \<in> set (decorations st')"
proof -
  from assms(1) obtain pre n post run m q rest s k nx where
    D: "D = pre @ (n, x) # post" and r: "(n, x) # post = run @ (m, q) # rest"
    and s: "forEach (callback d view eff) (pre @ run) initial = Inr s"
    and k: "measured view (m, q) = Some k" "k \<noteq> 0" "isListNode m"
      "nodeAt d (q + nodeSize m) = Inr nx" "isLastListItem nx"
      "listStartPos (accumulate q k s) = x"
      "eff < currentPageHeight s + currentListHeight (accumulate q k s)"
    unfolding listClosedAt_def by blast
  have "D = (pre @ run) @ (m, q) # rest" by (simp add: D r)
  from assms(2) [unfolded this] obtain s0 s1 where
    s0: "forEach (callback d view eff) (pre @ run) initial = Inr s0"
    and s1: "callback d view eff (m, q) s0 = Inr s1"
    and s': "forEach (callback d view eff) rest s1 = Inr st'"
    by (rule forEach_split)
  from s0 s have [simp]: "s0 = s" by simp
  have cp: "currentPageHeight (accumulate q k s) = currentPageHeight s"
    by (simp add: accumulate_def)
  from s1 k(1-5) have "s1 = closeList eff (accumulate q k s)"
    by (simp add: callback_measured)
  with k(6,7) cp have "Widget x \<in> set (decorations s1)"
    by (simp add: closeList_def placeBlock_def)
  with run_grows [OF s'] show ?thesis by blast
qed

lemma listClosedAtI:
  assumes "D = pre @ (n, x) # post" "forEach (callback d view eff) pre initial = Inr st"
    and "measured view (n, x) = Some h" "h \<noteq> 0" "isListNode n" "\<not> lastNodeWasList st"
    and "(n, x) # post = run @ (m, q) # rest" "\<forall>v \<in> set run. continues d view v"
    and "forEach (callback d view eff) (pre @ run) initial = Inr st'"
    and "measured view (m, q) = Some k" "k \<noteq> 0" "isListNode m"
    and "nodeAt d (q + nodeSize m) = Inr nx" "isLastListItem nx"
    and "listStartPos (accumulate q k st') = x"
    and "eff < currentPageHeight st' + currentListHeight (accumulate q k st')"
  shows "listClosedAt d view eff D x"
  unfolding listClosedAt_def using assms by blast

text \<open>
  Claim C3, as the code has it: a page break lies at a position exactly when either a
  visited non-list block of a height other than 0 starts there and overflowed the page
  when it was checked, or the list node that began an accumulated list starts there (a
  list node of a height other than 0, visited while no list was open) and the list,
  accumulated without interruption up to the node that closed it, overflowed the page.
  So every page break lies where a visited block-level node starts. It lies strictly
  inside the span of a visited node only when the node it starts is a descendant of that
  node: a node without block-level descendants is never split, a block that holds blocks
  can be.
\<close>

theorem breaks_at_block_starts:
  "\<exists>ds. props_decorations state view = Inr ds
     \<and> (\<forall>x. Widget x \<in> set ds \<longleftrightarrow>
          (\<exists>pre n post st h. descendants (doc state) = pre @ (n, x) # post
             \<and> forEach (callback (doc state) view (effectivePageHeight (pluginState state)))
                  pre initial = Inr st
             \<and> measured view (n, x) = Some h \<and> h \<noteq> 0 \<and> \<not> isListNode n
             \<and> effectivePageHeight (pluginState state) < currentPageHeight st + h)
        \<or> (\<exists>pre n post st h run m q rest st' k nx.
               descendants (doc state) = pre @ (n, x) # post
             \<and> forEach (callback (doc state) view (effectivePageHeight (pluginState state)))
                  pre initial = Inr st
             \<and> measured view (n, x) = Some h \<and> h \<noteq> 0 \<and> isListNode n
             \<and> \<not> lastNodeWasList st
             \<and> (n, x) # post = run @ (m, q) # rest
             \<and> (\<forall>v \<in> set run. continues (doc state) view v)
             \<and> forEach (callback (doc state) view (effectivePageHeight (pluginState state)))
                  (pre @ run) initial = Inr st'
             \<and> measured view (m, q) = Some k \<and> k \<noteq> 0 \<and> isListNode m
             \<and> nodeAt (doc state) (q + nodeSize m) = Inr nx \<and> isLastListItem nx
             \<and> listStartPos (accumulate q k st') = x
             \<and> effectivePageHeight (pluginState state)
                  < currentPageHeight st' + currentListHeight (accumulate q k st')))
     \<and> (\<forall>w \<in> set ds. \<forall>n m q. (n, widgetPos w) \<in> set (descendants (doc state))
            \<and> (m, q) \<in> set (descendants (doc state))
            \<and> q < widgetPos w \<and> widgetPos w < q + nodeSize m
          \<longrightarrow> (n, widgetPos w) \<in> set (visitAll (content m) (Suc q)))"
proof -
  let ?d = "doc state" and ?eff = "effectivePageHeight (pluginState state)"
  let ?D = "descendants ?d"
  obtain st' where t: "traverse state view = Inr st'"
    using traverse_total by blast
  then have run: "forEach (callback ?d view ?eff) ?D initial = Inr st'"
    by (simp add: traverse_def)
  have "?D = ?D @ []" by simp
  from prefix_origin [OF this run] have
    origin: "\<forall>w \<in> set (decorations st').
        checkedAt ?d view ?eff ?D (widgetPos w) \<or> listClosedAt ?d view ?eff ?D (widgetPos w)"
    by blast
  have iff: "Widget x \<in> set (decorations st')
      \<longleftrightarrow> checkedAt ?d view ?eff ?D x \<or> listClosedAt ?d view ?eff ?D x" for x
  proof
    assume "Widget x \<in> set (decorations st')"
    with origin show "checkedAt ?d view ?eff ?D x \<or> listClosedAt ?d view ?eff ?D x"
      by fastforce
  next
    assume "checkedAt ?d view ?eff ?D x \<or> listClosedAt ?d view ?eff ?D x"
    then show "Widget x \<in> set (decorations st')"
      using checkedAt_pushed [OF _ run] listClosedAt_pushed [OF _ run] by blast
  qed
  have inside: "(n, widgetPos w) \<in> set (visitAll (content m) (Suc q))"
    if "(n, widgetPos w) \<in> set ?D" "(m, q) \<in> set ?D" "q < widgetPos w"
      "widgetPos w < q + nodeSize m" for w n m q
    using inside_is_descendant(2) [OF that(2) [unfolded descendants_def]
        that(1) [unfolded descendants_def] that(3,4)] .
  have "props_decorations state view = Inr (decorations st')"
    by (simp add: props_decorations_def t)
  moreover have "\<forall>x. Widget x \<in> set (decorations st')
      \<longleftrightarrow> checkedAt ?d view ?eff ?D x \<or> listClosedAt ?d view ?eff ?D x"
    using iff by blast
  moreover have "\<forall>w \<in> set (decorations st'). \<forall>n m q. (n, widgetPos w) \<in> set ?D
            \<and> (m, q) \<in> set ?D \<and> q < widgetPos w \<and> widgetPos w < q + nodeSize m
          \<longrightarrow> (n, widgetPos w) \<in> set (visitAll (content m) (Suc q))"
    using inside by blast
  ultimately show ?thesis
    unfolding checkedAt_def listClosedAt_def by blast
qed

theorem breaks_at_block_starts_witness:
  "listClosedAt flatItems flatView 864 (descendants flatItems) 3
   \<and> (\<exists>ds. props_decorations \<lparr> doc = flatItems, pluginState = addOptions \<rparr> flatView = Inr ds
          \<and> Widget 3 \<in> set ds)
   \<and> props_decorations \<lparr> doc = flatItems, pluginState = addOptions \<rparr> flatView = Inr [Widget 3]
   \<and> props_decorations \<lparr> doc = quoteDoc, pluginState = addOptions \<rparr> quoteView = Inr [Widget 1]
   \<and> (paragraphOf ''ab'', 1) \<in> set (visitAll (content blockquote) (Suc 0))"
proof -
  let ?S = "\<lparr> doc = flatItems, pluginState = addOptions \<rparr>"
  let ?Q = "\<lparr> doc = quoteDoc, pluginState = addOptions \<rparr>"
  let ?a = "Branch ''listItem'' True [Text ''a'']" and ?b = "Branch ''listItem'' True [Text ''b'']"
  let ?pre = "[(paragraphOf ''x'', 0), (Text ''x'', 1)]"
  let ?st = "\<lparr> decorations = [], currentPageHeight = 100, pageNumber = 1,
    lastNodeWasList = False, currentListHeight = 0, listStartPos = 0 \<rparr>"
  let ?st' = "\<lparr> decorations = [], currentPageHeight = 100, pageNumber = 1,
    lastNodeWasList = True, currentListHeight = 500, listStartPos = 3 \<rparr>"
  have eff: "effectivePageHeight (pluginState ?S) = 864" "doc ?S = flatItems"
    by (simp_all add: effectivePageHeight_def addOptions_def)
  have closed: "listClosedAt flatItems flatView 864 (descendants flatItems) 3"
  proof (rule listClosedAtI [where pre = ?pre and n = ?a and post = "[(Text ''a'', 4), (?b, 6),
      (Text ''b'', 7)]" and st = ?st and h = 500 and run = "[(?a, 3), (Text ''a'', 4)]"
      and m = ?b and q = 6 and rest = "[(Text ''b'', 7)]" and st' = ?st' and k = 500
      and nx = None])
    show "descendants flatItems = ?pre @ (?a, 3) # [(Text ''a'', 4), (?b, 6), (Text ''b'', 7)]"
      by (simp add: descendants_def example_defs)
    show "forEach (callback flatItems flatView 864) ?pre initial = Inr ?st"
      by code_simp
    show "measured flatView (?a, 3) = Some 500" by code_simp
    show "(500::real) \<noteq> 0" by simp
    show "isListNode ?a" by (simp add: isListNode_def)
    show "\<not> lastNodeWasList ?st" by simp
    show "(?a, 3) # [(Text ''a'', 4), (?b, 6), (Text ''b'', 7)]
        = [(?a, 3), (Text ''a'', 4)] @ (?b, 6) # [(Text ''b'', 7)]"
      by simp
    have "continues flatItems flatView (?a, 3)" "continues flatItems flatView (Text ''a'', 4)"
      by code_simp+
    then show "\<forall>v \<in> set [(?a, 3), (Text ''a'', 4)]. continues flatItems flatView v"
      by simp
    show "forEach (callback flatItems flatView 864) (?pre @ [(?a, 3), (Text ''a'', 4)]) initial
        = Inr ?st'"
      by code_simp
    show "measured flatView (?b, 6) = Some 500" by code_simp
    show "(500::real) \<noteq> 0" by simp
    show "isListNode ?b" by (simp add: isListNode_def)
    show "nodeAt flatItems (6 + nodeSize ?b) = Inr None" by code_simp
    show "isLastListItem None" by (simp add: isLastListItem_def)
    show "listStartPos (accumulate 6 500 ?st') = 3" by (simp add: accumulate_def)
    show "864 < currentPageHeight ?st' + currentListHeight (accumulate 6 500 ?st')"
      by (simp add: accumulate_def)
  qed
  note folded = breaks_at_block_starts [of ?S flatView, unfolded eff,
      folded checkedAt_def listClosedAt_def]
  then obtain ds where "props_decorations ?S flatView = Inr ds"
    and "\<forall>x. Widget x \<in> set ds \<longleftrightarrow>
            checkedAt flatItems flatView 864 (descendants flatItems) x
            \<or> listClosedAt flatItems flatView 864 (descendants flatItems) x"
    by blast
  with closed have 1: "\<exists>ds. props_decorations ?S flatView = Inr ds \<and> Widget 3 \<in> set ds"
    by blast
  have 2: "props_decorations ?S flatView = Inr [Widget 3]" by code_simp
  have q: "props_decorations ?Q quoteView = Inr [Widget 1]" by code_simp
  have v: "(paragraphOf ''ab'', 1) \<in> set (descendants (doc ?Q))"
    "(blockquote, 0) \<in> set (descendants (doc ?Q))" "(0::nat) < 1" "1 < 0 + nodeSize blockquote"
    by (simp_all add: descendants_def example_defs)
  from breaks_at_block_starts [of ?Q quoteView] q
  have "\<forall>n m q. (n, 1) \<in> set (descendants (doc ?Q)) \<and> (m, q) \<in> set (descendants (doc ?Q))
      \<and> q < 1 \<and> 1 < q + nodeSize m \<longrightarrow> (n, 1) \<in> set (visitAll (content m) (Suc q))"
    by auto
  with v have 3: "(paragraphOf ''ab'', 1) \<in> set (visitAll (content blockquote) (Suc 0))"
    by blast
  from closed 1 2 q 3 show ?thesis by blast
qed

text \<open>
  Claim C3 as stated fails: a block quote of height 500 holding a paragraph of height 500
  gets its only page break at position 1, strictly inside the span of the block quote,
  a single non-list node.
\<close>

theorem nested_block_counterexample:
  "props_decorations \<lparr> doc = quoteDoc, pluginState = addOptions \<rparr> quoteView = Inr [Widget 1]
   \<and> (blockquote, 0) \<in> set (descendants quoteDoc)
   \<and> \<not> isListNode blockquote \<and> measured quoteView (blockquote, 0) = Some 500
   \<and> (0::nat) < 1 \<and> 1 < 0 + nodeSize blockquote"
  by code_simp

subsection \<open>A degenerate configuration\<close>






subsection \<open>The two plugins\<close>

lemma callback2_measured:
  assumes "\<not> isListNode n"
  shows "callback2 view o2 (n, p) st2 =
    (let h = (case measured view (n, p) of None \<Rightarrow> 0 | Some h \<Rightarrow> h);
         st1 = (if currentPageHeight2 st2 + h > pageHeight2 o2 - 2 * pageMargin2 o2
                then st2\<lparr>decorations2 := decorations2 st2 @ [Widget p], currentPageHeight2 := 0\<rparr>
                else st2)
     in st1\<lparr>currentPageHeight2 := currentPageHeight2 st1 + h\<rparr>)"
proof -
  from assms have "typeName n \<noteq> ''listItem''" by (simp add: isListNode_def)
  then have "(if isBlock n then (case view p of None \<Rightarrow> 0 | Some el \<Rightarrow> offsetHeight el) else 0)
      = (case measured view (n, p) of None \<Rightarrow> 0 | Some h \<Rightarrow> h)"
    by (simp add: measured_def split: option.splits)
  then show ?thesis by (simp add: Let_def)
qed

lemma variants_agree_run:
  assumes "\<forall>v \<in> set vs. \<not> isListNode (fst v)"
    and "\<forall>v \<in> set vs. \<forall>h. measured view v = Some h \<longrightarrow> h \<le> eff"
    and "eff = pageHeight2 o2 - 2 * pageMargin2 o2"
    and "decorations st = decorations2 st2" "currentPageHeight st = currentPageHeight2 st2"
    and "currentPageHeight st \<le> eff"
  shows "\<exists>st'. forEach (callback d view eff) vs st = Inr st'
    \<and> decorations st' = decorations2 (fold (callback2 view o2) vs st2)"
  using assms
proof (induction vs arbitrary: st st2)
  case Nil
  then show ?case by simp
next
  case (Cons v vs)
  obtain n p where v: "v = (n, p)" by (cases v)
  from Cons.prems(1) have nl: "\<not> isListNode n" by (simp add: v)
  from Cons.prems(2) have le: "\<forall>h. measured view (n, p) = Some h \<longrightarrow> h \<le> eff"
    by (simp add: v)
  let ?st2 = "callback2 view o2 (n, p) st2"
  have "\<exists>st1. callback d view eff (n, p) st = Inr st1
      \<and> decorations st1 = decorations2 ?st2
      \<and> currentPageHeight st1 = currentPageHeight2 ?st2 \<and> currentPageHeight st1 \<le> eff"
  proof (cases "measured view (n, p)")
    case None
    with nl Cons.prems(3-6) show ?thesis
      by (simp add: callback_measured callback2_measured del: callback2.simps)
  next
    case (Some h)
    with le have "h \<le> eff" by simp
    with Some nl Cons.prems(3-6) show ?thesis
      by (simp add: callback_measured callback2_measured placeBlock_def Let_def
          del: callback2.simps)
  qed
  then obtain st1 where st1: "callback d view eff (n, p) st = Inr st1"
    and r: "decorations st1 = decorations2 ?st2"
      "currentPageHeight st1 = currentPageHeight2 ?st2" "currentPageHeight st1 \<le> eff"
    by blast
  from Cons.prems(1,2) have
    "\<forall>v \<in> set vs. \<not> isListNode (fst v)"
    "\<forall>v \<in> set vs. \<forall>h. measured view v = Some h \<longrightarrow> h \<le> eff"
    by simp_all
  from Cons.IH [OF this Cons.prems(3) r] st1 show ?case
    by (simp add: v del: callback2.simps)
qed

text \<open>
  Claim C10, as the code has it: the two plugins push the same page breaks on a
  document without list nodes when the effective page height is not negative and no
  measured height exceeds it.
\<close>

theorem variants_agree_without_lists:
  assumes "\<forall>v \<in> set (descendants d). \<not> isListNode (fst v)"
    and "\<forall>v \<in> set (descendants d). \<forall>h. measured view v = Some h \<longrightarrow> h \<le> effectivePageHeight options"
    and "0 \<le> effectivePageHeight options"
    and "pageHeight2 opts2 = pageHeight options" "pageMargin2 opts2 = pageMargin options"
  shows "props_decorations \<lparr> doc = d, pluginState = options \<rparr> view
    = Inr (props_decorations2 d opts2 view)"
proof -
  have e: "effectivePageHeight options = pageHeight2 opts2 - 2 * pageMargin2 opts2"
    by (simp add: effectivePageHeight_def assms(4,5))
  from variants_agree_run [OF assms(1,2) e, of initial
      "\<lparr> decorations2 = [], currentPageHeight2 = 0 \<rparr>" d] assms(3)
  show ?thesis
    by (auto simp: props_decorations_def props_decorations2_def traverse_def initial_def)
qed

theorem variants_agree_without_lists_witness:
  "props_decorations \<lparr> doc = threeParagraphs, pluginState = addOptions \<rparr> threeView
     = Inr (props_decorations2 threeParagraphs options2 threeView)
   \<and> props_decorations2 threeParagraphs options2 threeView = [Widget 3]"
proof -
  have 1: "\<forall>v \<in> set (descendants threeParagraphs). \<not> isListNode (fst v)"
    by (simp add: descendants_def isListNode_def example_defs)
  have 2: "\<forall>v \<in> set (descendants threeParagraphs).
      \<forall>h. measured threeView v = Some h \<longrightarrow> h \<le> effectivePageHeight addOptions"
    by (simp add: descendants_def measured_def effectivePageHeight_def example_defs)
  have 3: "0 \<le> effectivePageHeight addOptions"
    by (simp add: effectivePageHeight_def addOptions_def)
  have 4: "pageHeight2 options2 = pageHeight addOptions"
    "pageMargin2 options2 = pageMargin addOptions"
    by (simp_all add: options2_def addOptions_def)
  have "props_decorations2 threeParagraphs options2 threeView = [Widget 3]"
    by code_simp
  with variants_agree_without_lists [OF 1 2 3 4] show ?thesis by simp
qed

text \<open>
  Claim C10 as stated fails: on a paragraph taller than a page the second plugin pushes
  a page break at the paragraph's text as well, and on a bullet list it pushes one at
  the first item, where the first plugin accumulates.
\<close>

theorem variants_differ_counterexample:
  "props_decorations \<lparr> doc = tallDoc, pluginState = addOptions \<rparr> tallView = Inr [Widget 0]
   \<and> props_decorations2 tallDoc options2 tallView = [Widget 0, Widget 1]
   \<and> props_decorations \<lparr> doc = listDoc, pluginState = addOptions \<rparr> listView
       = Inr [Widget 3, Widget 5, Widget 9, Widget 10]
   \<and> props_decorations2 listDoc options2 listView
       = [Widget 3, Widget 4, Widget 5, Widget 9, Widget 10]
   \<and> Widget 1 \<notin> set [Widget 0] \<and> Widget 4 \<notin> set [Widget 3, Widget 5, Widget 9, Widget 10]"
  by code_simp


subsection \<open>The numeric scenario and the page numbers\<close>

lemma visitAll_inline:
  "\<forall>c \<in> set cs. \<not> isBlock c \<and> content c = [] \<Longrightarrow> blockVisits (visitAll cs p) = []"
  by (induction cs arbitrary: p) (simp_all add: blockVisits_def visit_content)

lemma visit_ordinary:
  assumes "ordinaryBlock n"
  shows "blockVisits (visit n p) = [(n, p)]"
proof -
  from assms have b: "isBlock n" and "\<forall>c \<in> set (content n). \<not> isBlock c \<and> content c = []"
    unfolding ordinaryBlock_def by blast+
  from visitAll_inline [OF this(2), of "Suc p"] b show ?thesis
    by (simp add: visit_content blockVisits_def)
qed

lemma measured_ordinary:
  assumes "ordinaryBlock n" "view p = Some e"
  shows "measured view (n, p) = Some (offsetHeight e)"
proof -
  from assms(1) have "isBlock n" "typeName n \<noteq> ''listItem''"
    unfolding ordinaryBlock_def isListNode_def by blast+
  with assms(2) show ?thesis by (simp add: measured_def)
qed

lemma run_pageNumber:
  assumes "forEach (callback d view eff) vs st = Inr st'"
  shows "pageNumber st' = pageNumber st"
  using assms
proof (induction vs arbitrary: st)
  case Nil
  then show ?case by simp
next
  case (Cons v vs)
  obtain n p where v: "v = (n, p)" by (cases v)
  from Cons.prems obtain st1 where
    st1: "callback d view eff (n, p) st = Inr st1"
    and rest: "forEach (callback d view eff) vs st1 = Inr st'"
    by (auto simp: v split: sum.splits)
  from st1 have "pageNumber st1 = pageNumber st"
    by (cases rule: callback_cases) (simp_all add: placeBlock_def accumulate_def closeList_def)
  with Cons.IH [OF rest] show ?case by simp
qed

lemma drawWidgets_length: "length (drawWidgets options ws pn) = length ws"
  by (induction ws arbitrary: pn) (simp_all add: toDOM_def)

lemma drawWidgets_nth:
  "k < length ws \<Longrightarrow> drawWidgets options ws pn ! k = (widgetPos (ws ! k), fst (toDOM options (pn + k)))"
proof (induction ws arbitrary: pn k)
  case Nil
  then show ?case by simp
next
  case (Cons w ws)
  show ?case
  proof (cases k)
    case 0
    then show ?thesis by (simp add: toDOM_def)
  next
    case (Suc j)
    with Cons.prems Cons.IH [of j "Suc pn"] show ?thesis by (simp add: toDOM_def)
  qed
qed

lemma pageBreaks_labels:
  assumes "pageBreaks state view = Inr bs" "k < length bs"
  shows "dataPageNumber (snd (bs ! k)) = String (Suc k)"
proof -
  from assms(1) obtain st where t: "traverse state view = Inr st"
    and bs: "bs = drawWidgets (pluginState state) (decorations st) (pageNumber st)"
    by (auto simp: pageBreaks_def split: sum.splits)
  from run_pageNumber [OF t [unfolded traverse_def]] have pn: "pageNumber st = 1"
    by (simp add: initial_def)
  from assms(2) have "k < length (decorations st)"
    by (simp add: bs drawWidgets_length)
  from drawWidgets_nth [OF this, of "pluginState state" 1] show ?thesis
    by (simp add: bs pn toDOM_def)
qed

lemma ordinary_not_list: "ordinaryBlock n \<Longrightarrow> \<not> isListNode n"
  unfolding ordinaryBlock_def by blast

lemma String_1: "String (Suc 0) = ''1''"
  by code_simp

text \<open>
  Claim C4, as the code has it: with page height 1056 and margin 96, three consecutive
  ordinary blocks of heights 500, 500 and 100 give exactly one page break, at the
  second block, and the widget drawn for it carries page number 1. In general the k-th
  page break drawn carries the number k: \<^verbatim>\<open>pageNumber\<close> starts at 1, is read when a
  widget is drawn and incremented afterwards.
\<close>

theorem scenario_and_numbering:
  assumes d: "content d = [n1, n2, n3]"
    and blocks: "ordinaryBlock n1" "ordinaryBlock n2" "ordinaryBlock n3"
    and opts: "pageHeight options = 1056" "pageMargin options = 96"
    and e1: "view 0 = Some e1" "offsetHeight e1 = 500"
    and e2: "view (nodeSize n1) = Some e2" "offsetHeight e2 = 500"
    and e3: "view (nodeSize n1 + nodeSize n2) = Some e3" "offsetHeight e3 = 100"
  shows "pageBreaks \<lparr> doc = d, pluginState = options \<rparr> view
      = Inr [(nodeSize n1,
              \<lparr> dataPageNumber = ''1'',
                pageIndicator = (if showPageNumber options = Some True
                                 then Some (labelOrPage (label options) @ '' 1'') else None) \<rparr>)]
    \<and> (\<forall>state' view' bs k. pageBreaks state' view' = Inr bs \<and> k < length bs
          \<longrightarrow> dataPageNumber (snd (bs ! k)) = String (Suc k))"
proof -
  let ?cb = "callback d view (effectivePageHeight options)"
  have "descendants d
      = visit n1 0 @ visit n2 (nodeSize n1) @ visit n3 (nodeSize n1 + nodeSize n2)"
    by (simp add: descendants_def d)
  then have vs: "blockVisits (descendants d)
      = [(n1, 0), (n2, nodeSize n1), (n3, nodeSize n1 + nodeSize n2)]"
    by (simp add: blockVisits_append visit_ordinary [OF blocks(1)]
        visit_ordinary [OF blocks(2)] visit_ordinary [OF blocks(3)])
  have m: "measured view (n1, 0) = Some 500" "measured view (n2, nodeSize n1) = Some 500"
    "measured view (n3, nodeSize n1 + nodeSize n2) = Some 100"
    using blocks e1 e2 e3 by (simp_all add: measured_ordinary)
  have nl: "\<not> isListNode n1" "\<not> isListNode n2" "\<not> isListNode n3"
    using blocks by (simp_all add: ordinary_not_list)
  have eff: "effectivePageHeight options = 864"
    by (simp add: effectivePageHeight_def opts)
  have "forEach ?cb (blockVisits (descendants d)) initial
      = Inr (initial\<lparr>decorations := [Widget (nodeSize n1)], currentPageHeight := 600\<rparr>)"
    unfolding vs by (simp add: callback_measured m nl eff placeBlock_def initial_def)
  then have "traverse \<lparr> doc = d, pluginState = options \<rparr> view
      = Inr (initial\<lparr>decorations := [Widget (nodeSize n1)], currentPageHeight := 600\<rparr>)"
    by (simp add: traverse_def forEach_blockVisits [symmetric])
  then have "pageBreaks \<lparr> doc = d, pluginState = options \<rparr> view
      = Inr [(nodeSize n1,
              \<lparr> dataPageNumber = ''1'',
                pageIndicator = (if showPageNumber options = Some True
                                 then Some (labelOrPage (label options) @ '' 1'') else None) \<rparr>)]"
    by (simp add: pageBreaks_def initial_def toDOM_def String_1)
  moreover have "\<forall>state' view' bs k. pageBreaks state' view' = Inr bs \<and> k < length bs
          \<longrightarrow> dataPageNumber (snd (bs ! k)) = String (Suc k)"
    by (intro allI impI, elim conjE) (rule pageBreaks_labels)
  ultimately show ?thesis by (rule conjI)
qed

theorem scenario_and_numbering_witness:
  "pageBreaks \<lparr> doc = article, pluginState = addOptions \<rparr> articleView
     = Inr [(7, \<lparr> dataPageNumber = ''1'', pageIndicator = Some ''Page 1'' \<rparr>)]"
proof -
  have c: "content article = [heading, paragraphOf ''abc'', paragraphOf ''d'']"
    by (simp add: article_def)
  have b: "ordinaryBlock heading" "ordinaryBlock (paragraphOf ''abc'')"
    "ordinaryBlock (paragraphOf ''d'')"
    by (simp_all add: ordinaryBlock_def isListNode_def example_defs)
  have o: "pageHeight addOptions = 1056" "pageMargin addOptions = 96"
    by (simp_all add: addOptions_def)
  have e1: "articleView 0 = Some (element 500)" "offsetHeight (element 500) = 500"
    by (simp_all add: articleView_def element_def)
  have e2: "articleView (nodeSize heading) = Some (element 500)"
    by (simp add: articleView_def heading_def)
  have e3: "articleView (nodeSize heading + nodeSize (paragraphOf ''abc'')) = Some (element 100)"
    "offsetHeight (element 100) = 100"
    by (simp_all add: articleView_def heading_def paragraphOf_def element_def)
  from scenario_and_numbering [OF c b o e1 e2 e1(2) e3]
  show ?thesis by (simp add: addOptions_def labelOrPage_def heading_def)
qed

text \<open>
  Claim C4 as stated fails: in the scenario the widget of the only page break carries
  page number 1, not 2.
\<close>

theorem page_number_counterexample:
  "pageBreaks \<lparr> doc = threeParagraphs, pluginState = addOptions \<rparr> threeView
     = Inr [(3, \<lparr> dataPageNumber = ''1'', pageIndicator = Some ''Page 1'' \<rparr>)]
   \<and> String 2 = ''2''"
  by code_simp

subsection \<open>A list is not kept together\<close>

text \<open>
  A run of list nodes that the traversal visits one after the other, each but the last
  followed in the document by a list node, is handled as one block: one overflow check
  on the sum of their heights, one page break at most, at the first node of the run.
\<close>

lemma accumulate_run:
  assumes "lastNodeWasList st" "\<forall>v \<in> set vs. continues d view v"
  shows "forEach (callback d view eff) vs st
    = Inr (st\<lparr>currentListHeight := currentListHeight st + sum_list (map (heightOf view) vs)\<rparr>)"
  using assms
proof (induction vs arbitrary: st)
  case Nil
  show ?case by simp
next
  case (Cons v vs)
  obtain n p where v: "v = (n, p)" by (cases v)
  let ?st1 = "st\<lparr>currentListHeight := currentListHeight st + heightOf view v\<rparr>"
  from Cons.prems have "callback d view eff (n, p) st = Inr ?st1"
    by (auto simp: v continues_def heightOf_def callback_measured accumulate_def
        split: option.splits sum.splits)
  moreover from Cons.prems have "lastNodeWasList ?st1" "\<forall>v \<in> set vs. continues d view v"
    by simp_all
  from Cons.IH [OF this] have "forEach (callback d view eff) vs ?st1
    = Inr (st\<lparr>currentListHeight :=
        currentListHeight st + (heightOf view v + sum_list (map (heightOf view) vs))\<rparr>)"
    by (simp add: add.assoc)
  ultimately show ?case by (simp add: v)
qed

lemma sibling_list_run:
  assumes start: "\<not> lastNodeWasList st"
    and first: "measured view (n, p) = Some h" "h \<noteq> 0" "isListNode n"
      "nodeAt d (p + nodeSize n) = Inr nx" "\<not> isLastListItem nx"
    and mid: "\<forall>v \<in> set vs. continues d view v"
    and last: "measured view (m, q) = Some k" "k \<noteq> 0" "isListNode m"
      "nodeAt d (q + nodeSize m) = Inr None \<or> (\<exists>x. nodeAt d (q + nodeSize m) = Inr (Some x)
          \<and> \<not> isListNode x)"
  shows "forEach (callback d view eff) ((n, p) # vs @ [(m, q)]) st =
    Inr (let total = h + sum_list (map (heightOf view) vs) + k in
         if currentPageHeight st + total > eff
         then st\<lparr>decorations := decorations st @ [Widget p], currentPageHeight := total,
                 lastNodeWasList := False, currentListHeight := total, listStartPos := p\<rparr>
         else st\<lparr>currentPageHeight := currentPageHeight st + total,
                 lastNodeWasList := False, currentListHeight := total, listStartPos := p\<rparr>)"
proof -
  let ?cb = "callback d view eff"
  let ?st1 = "st\<lparr>listStartPos := p, currentListHeight := h, lastNodeWasList := True\<rparr>"
  have 1: "?cb (n, p) st = Inr ?st1"
    using start first by (simp add: callback_measured accumulate_def)
  have 2: "forEach ?cb vs ?st1
      = Inr (?st1\<lparr>currentListHeight := h + sum_list (map (heightOf view) vs)\<rparr>)"
    using accumulate_run [of ?st1 vs d view eff] mid by simp
  from last(4) obtain nx' where nx': "nodeAt d (q + nodeSize m) = Inr nx'" "isLastListItem nx'"
    by (auto simp: isLastListItem_def)
  have 3: "?cb (m, q) (?st1\<lparr>currentListHeight := h + sum_list (map (heightOf view) vs)\<rparr>)
      = Inr (closeList eff
          (?st1\<lparr>currentListHeight := h + sum_list (map (heightOf view) vs) + k\<rparr>))"
    using last(1-3) nx' by (simp add: callback_measured accumulate_def)
  have "forEach ?cb ((n, p) # vs @ [(m, q)]) st
      = Inr (closeList eff
          (?st1\<lparr>currentListHeight := h + sum_list (map (heightOf view) vs) + k\<rparr>))"
    by (simp only: forEach.simps forEach_append 1 2 3 sum.case)
  then show ?thesis
    by (simp add: closeList_def placeBlock_def Let_def)
qed

lemma sibling_list_run_example:
  "props_decorations \<lparr> doc = flatItems, pluginState = addOptions \<rparr> flatView = Inr [Widget 3]
   \<and> map_sum id currentPageHeight (traverse \<lparr> doc = flatItems, pluginState = addOptions \<rparr> flatView)
       = Inr 1000"
  by code_simp

text \<open>
  Claim C1 asks for one page break per list, at the list's start, with the whole list's
  height as the new \<^verbatim>\<open>currentPageHeight\<close>. A list in a document is a list node
  around item nodes around blocks, and there the code does otherwise. On a paragraph
  followed by a bullet list of two items, each a paragraph: the list node closes its own
  accumulation (the node after its end is absent), each item's paragraph is checked as an
  ordinary block, and the first item's accumulated height is dropped. Four page breaks
  result, at the list (3), inside the first item (5), at the second item (9) and inside
  it (10), the list spanning 3 to 15; after the list node and its first item
  \<^verbatim>\<open>currentPageHeight\<close> is 900, not 1350.
\<close>

theorem list_is_split:
  "descendants listDoc
     = [(paragraphOf ''x'', 0), (Text ''x'', 1),
        (Branch ''bulletList'' True [listItemOf ''a'', listItemOf ''b''], 3),
        (listItemOf ''a'', 4), (paragraphOf ''a'', 5), (Text ''a'', 6),
        (listItemOf ''b'', 9), (paragraphOf ''b'', 10), (Text ''b'', 11)]
   \<and> props_decorations \<lparr> doc = listDoc, pluginState = addOptions \<rparr> listView
       = Inr [Widget 3, Widget 5, Widget 9, Widget 10]
   \<and> nodeSize (Branch ''bulletList'' True [listItemOf ''a'', listItemOf ''b'']) = 12
   \<and> forEach (callback listDoc listView (effectivePageHeight addOptions))
        (take 4 (descendants listDoc)) initial
       = Inr \<lparr> decorations = [Widget 3], currentPageHeight = 900, pageNumber = 1,
               lastNodeWasList = True, currentListHeight = 450, listStartPos = 4 \<rparr>"
  by code_simp

end
